theory Spec2Isabelle
  imports Main "HOL-Library.Word"
begin

unbundle bit_operations_syntax

section \<open>The transaction-sequence compiler of lsquaredc.c\<close>

text \<open>
  The development embeds \<^verbatim>\<open>count_segments\<close> and \<^verbatim>\<open>i2c_send_sequence\<close> of
  \<^verbatim>\<open>src/lsquaredc.c\<close>. A sequence is a list of 16-bit tokens; the C parameter
  \<^verbatim>\<open>sequence_length\<close> is the length of that list (the list holds exactly the tokens
  the caller announces). All counters of the source are \<^verbatim>\<open>uint32_t\<close>; they are
  modelled as \<open>nat\<close>: every counter is bounded by \<^verbatim>\<open>sequence_length\<close>, and the two
  subtractions \<^verbatim>\<open>sequence_length - 1\<close> and \<^verbatim>\<open>sequence_length - 2\<close> are only
  evaluated behind the guard \<^verbatim>\<open>sequence_length < 2\<close>, so nothing wraps.

  The header \<^verbatim>\<open>lsquaredc.h\<close> is not among the sources, so the value of the macro
  \<^verbatim>\<open>I2C_RESTART\<close> is unknown: it is the parameter \<open>restart\<close> of every function
  below. \<^verbatim>\<open>I2C_READ\<close> does not occur in \<^verbatim>\<open>lsquaredc.c\<close> at all: on a read segment
  the code counts every token that is not the restart. The concrete runs take
  \<open>0x100\<close> for the restart and \<open>0x200\<close> for the read placeholder, two values outside
  the range of a byte.

  The pointer \<^verbatim>\<open>received_data\<close> is not dereferenced by the code; the model keeps its
  offset from the value the caller passed.
\<close>

subsection \<open>Data\<close>

type_synonym token = "16 word"

text \<open>
  A buffer pointer stored in a message: either the caller's \<^verbatim>\<open>received_data\<close>
  pointer advanced by an offset, or the start of the allocation \<^verbatim>\<open>msg_buf\<close> advanced
  by an offset.
\<close>

datatype buf_ptr = Received nat | Msg_buf nat

text \<open>
  Modelled from the spec: \<^verbatim>\<open>struct i2c_msg\<close>, which \<^verbatim>\<open>linux/i2c.h\<close> declares outside the
  repository. A segment of the specification has a device address, a direction, a byte
  length and a buffer pointer; the record has the four fields the code assigns, and the
  three integer fields have the 16 bits that the kernel's declaration gives them. The
  assignment of the 32-bit counter \<^verbatim>\<open>msg_cur_buf_size\<close> to \<open>len\<close> (line 137) therefore
  keeps the counter modulo 65536.
\<close>

record i2c_msg =
  addr :: "16 word"
  flags :: "16 word"
  len :: "16 word"
  buf :: buf_ptr

text \<open>
  Modelled from the spec: the read flag \<^verbatim>\<open>I2C_M_RD\<close> of \<^verbatim>\<open>linux/i2c.h\<close>. A message
  with this flag is a READ segment of the specification, a message with flags 0 a WRITE
  segment; the proofs use of the value only that it is not 0.
\<close>

definition I2C_M_RD :: "16 word" where
  "I2C_M_RD = 1"

text \<open>
  Modelled from the spec: the transport's limit on the segments of one transfer, a macro
  of \<^verbatim>\<open>linux/i2c-dev.h\<close>. The specification gives 42, and so does the comment above
  \<^verbatim>\<open>i2c_send_sequence\<close>: "no more than 42".
\<close>

definition I2C_RDRW_IOCTL_MAX_MSGS :: nat where
  "I2C_RDRW_IOCTL_MAX_MSGS = 42"

definition WRITING :: "8 word" where
  "WRITING = 0"

definition READING :: "8 word" where
  "READING = 1"

text \<open>
  The local variables of \<^verbatim>\<open>i2c_send_sequence\<close> that the loop changes. The two
  allocations are arrays whose cells are \<open>None\<close> until they are written;
  \<open>current_message\<close>, \<open>msg_cur_buf_ptr\<close> and \<open>msg_cur_buf_base\<close> are offsets
  into them, \<open>received_data\<close> is the offset from the pointer the caller passed.
\<close>

record compile_state =
  messages :: "i2c_msg option list"
  current_message :: nat
  msg_buf :: "8 word option list"
  msg_cur_buf_ptr :: nat
  msg_cur_buf_base :: nat
  msg_cur_buf_size :: nat
  address :: "8 word"
  rw :: "8 word"
  received_data :: nat

text \<open>A write past the end of an allocation is undefined behaviour in C; here it is a value.\<close>

datatype fault = Msg_buf_overrun | Messages_overrun

subsection \<open>count_segments\<close>

function count_segments_loop :: "token \<Rightarrow> token list \<Rightarrow> nat \<Rightarrow> nat \<Rightarrow> nat" where
  "count_segments_loop restart sequence i number_of_segments =
     (if i < length sequence
      then count_segments_loop restart sequence (i + 1)
             (if sequence ! i = restart then number_of_segments + 1 else number_of_segments)
      else number_of_segments)"
  by pat_completeness auto
termination
  by (relation "measure (\<lambda>(restart, sequence, i, n). length sequence - i)") auto

declare count_segments_loop.simps [simp del]

definition count_segments :: "token \<Rightarrow> token list \<Rightarrow> nat" where
  "count_segments restart sequence = count_segments_loop restart sequence 1 1"

subsection \<open>The loop of i2c_send_sequence\<close>

text \<open>Lines 126 to 131: a token that is not \<^verbatim>\<open>I2C_RESTART\<close> is staged and counted.\<close>

definition stage_token :: "token \<Rightarrow> token list \<Rightarrow> nat \<Rightarrow> compile_state \<Rightarrow> fault + compile_state" where
  "stage_token restart sequence i s =
     (if sequence ! i \<noteq> restart then
        (if rw s = WRITING then
           (if msg_cur_buf_ptr s < length (msg_buf s) then
              Inr (s\<lparr>msg_buf := (msg_buf s)[msg_cur_buf_ptr s := Some (ucast (sequence ! i))],
                     msg_cur_buf_ptr := msg_cur_buf_ptr s + 1,
                     msg_cur_buf_size := msg_cur_buf_size s + 1\<rparr>)
            else Inl Msg_buf_overrun)
         else Inr (s\<lparr>msg_cur_buf_size := msg_cur_buf_size s + 1\<rparr>))
      else Inr s)"

text \<open>Lines 135 to 140: the message under \<^verbatim>\<open>current_message\<close> is filled out.\<close>

definition fill_message :: "compile_state \<Rightarrow> i2c_msg" where
  "fill_message s =
     \<lparr>addr = ucast (drop_bit 1 (address s)),
      flags = (if rw s \<noteq> 0 then I2C_M_RD else 0),
      len = of_nat (msg_cur_buf_size s),
      buf = (if rw s \<noteq> 0 then Received (received_data s) else Msg_buf (msg_cur_buf_base s))\<rparr>"

text \<open>
  Lines 133 to 151: the segment is closed at a restart and at the last token. The result
  carries the index \<open>i\<close>, which the lookahead advances.
\<close>

definition close_segment ::
  "token \<Rightarrow> token list \<Rightarrow> nat \<Rightarrow> compile_state \<Rightarrow> fault + (nat \<times> compile_state)" where
  "close_segment restart sequence i s =
     (if sequence ! i = restart \<or> i = length sequence - 1 then
        (if current_message s < length (messages s) then
           (let s1 = s\<lparr>messages := (messages s)[current_message s := Some (fill_message s)],
                        current_message := current_message s + 1\<rparr>;
                s2 = (if rw s1 = READING
                      then s1\<lparr>received_data := received_data s1 + msg_cur_buf_size s1\<rparr>
                      else s1)
            in if i < length sequence - 2
               then Inr (i + 1,
                         s2\<lparr>address := ucast (sequence ! (i + 1)),
                            rw := ucast (sequence ! (i + 1)) AND 1,
                            msg_cur_buf_size := 0,
                            msg_cur_buf_base := msg_cur_buf_ptr s2\<rparr>)
               else Inr (i, s2))
         else Inl Messages_overrun)
      else Inr (i, s))"

text \<open>One pass through the body of the \<^verbatim>\<open>while\<close> loop, before the final \<^verbatim>\<open>i++\<close>.\<close>

definition loop_body ::
  "token \<Rightarrow> token list \<Rightarrow> nat \<Rightarrow> compile_state \<Rightarrow> fault + (nat \<times> compile_state)" where
  "loop_body restart sequence i s =
     (case stage_token restart sequence i s of
        Inl f \<Rightarrow> Inl f
      | Inr s1 \<Rightarrow> close_segment restart sequence i s1)"

function compile_loop :: "token \<Rightarrow> token list \<Rightarrow> nat \<Rightarrow> compile_state \<Rightarrow> fault + compile_state" where
  "compile_loop restart sequence i s =
     (if i < length sequence then
        (case loop_body restart sequence i s of
           Inl f \<Rightarrow> Inl f
         | Inr (i', s') \<Rightarrow> compile_loop restart sequence (i' + 1) s')
      else Inr s)"
  by pat_completeness auto
termination
proof (relation "measure (\<lambda>(restart, sequence, i, s). length sequence - i)")
  show "wf (measure (\<lambda>(restart, sequence, i, s). length (sequence :: token list) - (i :: nat)))"
    by simp
next
  fix restart :: token and sequence :: "token list" and i :: nat and s :: compile_state
  fix x2 :: "nat \<times> compile_state" and i' :: nat and s' :: compile_state
  assume lt: "i < length sequence"
    and body: "loop_body restart sequence i s = Inr x2"
    and x2: "(i', s') = x2"
  from body x2 have "i \<le> i'"
    by (auto simp: loop_body_def close_segment_def Let_def split: sum.splits if_splits)
  with lt show "((restart, sequence, i' + 1, s'), (restart, sequence, i, s))
      \<in> measure (\<lambda>(restart, sequence, i, s). length sequence - i)"
    by simp
qed

declare compile_loop.simps [simp del]

text \<open>
  Lines 101 to 153 on the path behind both guards: the two allocations, the decoding of
  token 0, and the loop from index 1.
\<close>

definition init_state :: "token list \<Rightarrow> nat \<Rightarrow> compile_state" where
  "init_state sequence number_of_segments =
     \<lparr>messages = replicate number_of_segments None,
      current_message = 0,
      msg_buf = replicate (length sequence) None,
      msg_cur_buf_ptr = 0,
      msg_cur_buf_base = 0,
      msg_cur_buf_size = 0,
      address = ucast (sequence ! 0),
      rw = ucast (sequence ! 0) AND 1,
      received_data = 0\<rparr>"

definition compile_sequence :: "token \<Rightarrow> token list \<Rightarrow> fault + compile_state" where
  "compile_sequence restart sequence =
     compile_loop restart sequence 1 (init_state sequence (count_segments restart sequence))"

subsection \<open>i2c_send_sequence\<close>

text \<open>
  What the call hands to \<^verbatim>\<open>ioctl(handle, I2C_RDWR, ...)\<close>: the message array, the
  count \<^verbatim>\<open>nmsgs\<close>, and the bytes of \<^verbatim>\<open>msg_buf\<close> the messages point into.
\<close>

record submission =
  msgs :: "i2c_msg option list"
  nmsgs :: nat
  staged :: "8 word option list"

text \<open>
  The effects of a call, in order. \<open>Malloc_messages n\<close> is the allocation of \<open>n\<close>
  message structures, \<open>Malloc_msg_buf n\<close> that of \<open>n\<close> bytes. Both allocations are
  taken to succeed (the source does not test them).
\<close>

datatype event =
  Malloc_messages nat
| Malloc_msg_buf nat
| Ioctl int submission
| Free_msg_buf
| Free_messages

record outcome =
  result :: int
  trace :: "event list"

text \<open>
  The transport is the parameter \<open>ioctl\<close>: the value the system call returns for a
  handle and a submission.
\<close>

definition i2c_send_sequence ::
  "token \<Rightarrow> (int \<Rightarrow> submission \<Rightarrow> int) \<Rightarrow> int \<Rightarrow> token list \<Rightarrow> fault + outcome" where
  "i2c_send_sequence restart ioctl handle sequence =
     (let sequence_length = length sequence;
          number_of_segments = count_segments restart sequence;
          allocated = [Malloc_messages number_of_segments, Malloc_msg_buf sequence_length];
          cleanup = [Free_msg_buf, Free_messages]
      in if sequence_length < 2 then Inr \<lparr>result = - 1, trace = allocated @ cleanup\<rparr>
         else if number_of_segments > I2C_RDRW_IOCTL_MAX_MSGS
         then Inr \<lparr>result = - 1, trace = allocated @ cleanup\<rparr>
         else
           (case compile_sequence restart sequence of
              Inl f \<Rightarrow> Inl f
            | Inr s \<Rightarrow>
                (let message_sequence =
                       \<lparr>msgs = messages s, nmsgs = number_of_segments, staged = msg_buf s\<rparr>
                 in Inr \<lparr>result = ioctl handle message_sequence,
                         trace = allocated @ [Ioctl handle message_sequence] @ cleanup\<rparr>)))"

text \<open>The allocations and the transport calls among the effects of a call.\<close>

fun is_malloc :: "event \<Rightarrow> bool" where
  "is_malloc (Malloc_messages n) = True"
| "is_malloc (Malloc_msg_buf n) = True"
| "is_malloc e = False"

fun is_ioctl :: "event \<Rightarrow> bool" where
  "is_ioctl (Ioctl handle message_sequence) = True"
| "is_ioctl e = False"

definition allocations :: "fault + outcome \<Rightarrow> event list" where
  "allocations r = (case r of Inl f \<Rightarrow> [] | Inr out \<Rightarrow> filter is_malloc (trace out))"

definition submissions :: "fault + outcome \<Rightarrow> event list" where
  "submissions r = (case r of Inl f \<Rightarrow> [] | Inr out \<Rightarrow> filter is_ioctl (trace out))"

text \<open>A transport that reports success, for the concrete runs below.\<close>

definition transport_ok :: "int \<Rightarrow> submission \<Rightarrow> int" where
  "transport_ok handle message_sequence = 0"

section \<open>Notions for the statements and the invariants\<close>

text \<open>
  The value of the counter when a pass through the body reaches line 133, and the message
  the pass fills if it closes a segment.
\<close>

definition closing_size :: "token \<Rightarrow> token list \<Rightarrow> nat \<Rightarrow> compile_state \<Rightarrow> nat" where
  "closing_size restart sequence i s =
     (if sequence ! i \<noteq> restart then msg_cur_buf_size s + 1 else msg_cur_buf_size s)"

definition closing_message :: "token \<Rightarrow> token list \<Rightarrow> nat \<Rightarrow> compile_state \<Rightarrow> i2c_msg" where
  "closing_message restart sequence i s =
     \<lparr>addr = ucast (drop_bit 1 (address s)),
      flags = (if rw s \<noteq> 0 then I2C_M_RD else 0),
      len = of_nat (closing_size restart sequence i s),
      buf = (if rw s \<noteq> 0 then Received (received_data s) else Msg_buf (msg_cur_buf_base s))\<rparr>"

text \<open>
  The number of segments the loop closes on the tokens from index \<open>i\<close> on, as a function
  of these tokens alone: the last token always closes one, a restart token closes one, and
  a restart with at least two tokens behind it swallows the next token as an address.
\<close>

fun closes :: "token \<Rightarrow> token list \<Rightarrow> nat" where
  "closes r [] = 0"
| "closes r [x] = 1"
| "closes r [x, y] = (if x = r then 2 else 1)"
| "closes r (x # y # z # rest) =
     (if x = r then 1 + closes r (z # rest) else closes r (y # z # rest))"

text \<open>
  The invariant of the loop at index \<open>i\<close>: the write cursor and the counter are below
  \<open>i\<close>, and the messages filled so far together with those still to come are \<open>K\<close>, which the message
  array of \<open>M\<close> cells can hold.
\<close>

definition safe_inv :: "token \<Rightarrow> token list \<Rightarrow> nat \<Rightarrow> nat \<Rightarrow> nat \<Rightarrow> compile_state \<Rightarrow> bool" where
  "safe_inv restart sequence K M i s \<longleftrightarrow>
     1 \<le> i \<and> i \<le> length sequence \<and>
     length (msg_buf s) = length sequence \<and> msg_cur_buf_ptr s < i \<and>
     msg_cur_buf_size s < i \<and>
     length (messages s) = M \<and> K \<le> M \<and>
     current_message s + closes restart (drop i sequence) = K"


abbreviation restarts :: "token \<Rightarrow> token list \<Rightarrow> nat" where
  "restarts r xs \<equiv> length (filter (\<lambda>t. t = r) xs)"

text \<open>
  What lines 119, 120, 135 and 136 make of an address token: the token is narrowed to
  \<^verbatim>\<open>uint8_t\<close>, the address field is that byte shifted right by one, and the flag is
  \<^verbatim>\<open>I2C_M_RD\<close> exactly when bit 0 is set.
\<close>

definition decoded_addr :: "token \<Rightarrow> 16 word" where
  "decoded_addr tok = ucast (drop_bit 1 (ucast tok :: 8 word))"

definition decoded_flags :: "token \<Rightarrow> 16 word" where
  "decoded_flags tok = (if bit tok 0 then I2C_M_RD else 0)"

text \<open>The tokens that directly follow a restart token, in order.\<close>

fun tokens_after_restart :: "token \<Rightarrow> token list \<Rightarrow> token list" where
  "tokens_after_restart r (x # y # rest) =
     (if x = r then y # tokens_after_restart r (y # rest) else tokens_after_restart r (y # rest))"
| "tokens_after_restart r rest = []"

text \<open>
  The invariant the specification puts on sequences: every restart token is followed by
  an address token, which is not a restart, and by at least one more token.
\<close>

fun restarts_well_formed :: "token \<Rightarrow> token list \<Rightarrow> bool" where
  "restarts_well_formed r [] = True"
| "restarts_well_formed r (x # rest) =
     ((if x = r then 2 \<le> length rest \<and> hd rest \<noteq> r else True) \<and> restarts_well_formed r rest)"

text \<open>
  The address and flags fields a message gets from \<^verbatim>\<open>address\<close> and \<^verbatim>\<open>rw\<close>, and
  those of the messages the loop is still going to fill on the tokens left.
\<close>

definition message_fields :: "8 word \<Rightarrow> 8 word \<Rightarrow> 16 word \<times> 16 word" where
  "message_fields a w = (ucast (drop_bit 1 a), if w \<noteq> 0 then I2C_M_RD else 0)"

fun pending_fields :: "token \<Rightarrow> 8 word \<Rightarrow> 8 word \<Rightarrow> token list \<Rightarrow> (16 word \<times> 16 word) list" where
  "pending_fields r a w [] = []"
| "pending_fields r a w [x] = [message_fields a w]"
| "pending_fields r a w [x, y] =
     (if x = r then [message_fields a w, message_fields a w] else [message_fields a w])"
| "pending_fields r a w (x # y # z # rest) =
     (if x = r then message_fields a w # pending_fields r (ucast y) (ucast y AND 1) (z # rest)
      else pending_fields r a w (y # z # rest))"

definition fields_of :: "i2c_msg option \<Rightarrow> (16 word \<times> 16 word) option" where
  "fields_of c = map_option (\<lambda>m. (addr m, flags m)) c"

definition fields_inv ::
  "token \<Rightarrow> token list \<Rightarrow> (16 word \<times> 16 word) option list \<Rightarrow> nat \<Rightarrow> compile_state \<Rightarrow> bool" where
  "fields_inv restart sequence T i s \<longleftrightarrow>
     map fields_of (take (current_message s) (messages s)) @
     map Some (pending_fields restart (address s) (rw s) (drop i sequence)) = T"















text \<open>
  The message lines 135 to 140 fill out for an address byte \<open>a\<close>, a direction \<open>w\<close>, a
  counter \<open>c\<close>, a base \<open>b\<close> in \<^verbatim>\<open>msg_buf\<close> and an offset \<open>off\<close> into the receive
  buffer.
\<close>

definition segment_message :: "8 word \<Rightarrow> 8 word \<Rightarrow> nat \<Rightarrow> nat \<Rightarrow> nat \<Rightarrow> i2c_msg" where
  "segment_message a w c b off =
     \<lparr>addr = ucast (drop_bit 1 a),
      flags = (if w \<noteq> 0 then I2C_M_RD else 0),
      len = of_nat c,
      buf = (if w \<noteq> 0 then Received off else Msg_buf b)\<rparr>"

text \<open>
  The messages the loop is still going to fill, and the bytes it is still going to
  stage, on the tokens left, as functions of these tokens and of the variables the loop
  reads: a token that is not the restart is counted (and staged when writing), a restart
  and the last token close a message, and a restart with at least two tokens behind it
  takes the next token as the new address.
\<close>

fun pending_msgs ::
  "token \<Rightarrow> 8 word \<Rightarrow> 8 word \<Rightarrow> nat \<Rightarrow> nat \<Rightarrow> nat \<Rightarrow> nat \<Rightarrow> token list \<Rightarrow> i2c_msg list" where
  "pending_msgs r a w c b p off [] = []"
| "pending_msgs r a w c b p off [x] = [segment_message a w (if x \<noteq> r then c + 1 else c) b off]"
| "pending_msgs r a w c b p off [x, y] =
     (if x = r
      then segment_message a w c b off #
           pending_msgs r a w c b p (if w = READING then off + c else off) [y]
      else pending_msgs r a w (c + 1) b (if w = WRITING then p + 1 else p) off [y])"
| "pending_msgs r a w c b p off (x # y # z # rest) =
     (if x = r
      then segment_message a w c b off #
           pending_msgs r (ucast y) (ucast y AND 1) 0 p p (if w = READING then off + c else off)
             (z # rest)
      else pending_msgs r a w (c + 1) b (if w = WRITING then p + 1 else p) off (y # z # rest))"

fun pending_bytes :: "token \<Rightarrow> 8 word \<Rightarrow> token list \<Rightarrow> 8 word list" where
  "pending_bytes r w [] = []"
| "pending_bytes r w [x] = (if x \<noteq> r \<and> w = WRITING then [ucast x] else [])"
| "pending_bytes r w [x, y] =
     (if x \<noteq> r \<and> w = WRITING then [ucast x] else []) @ pending_bytes r w [y]"
| "pending_bytes r w (x # y # z # rest) =
     (if x = r then pending_bytes r (ucast y AND 1) (z # rest)
      else (if w = WRITING then [ucast x] else []) @ pending_bytes r w (y # z # rest))"

text \<open>
  The invariants that go with them: the cells filled so far, followed by what is still
  to come, are a fixed list; the cells of \<^verbatim>\<open>msg_buf\<close> from the write cursor on are
  unwritten.
\<close>

definition msgs_inv :: "token \<Rightarrow> token list \<Rightarrow> i2c_msg option list \<Rightarrow> nat \<Rightarrow> compile_state \<Rightarrow> bool" where
  "msgs_inv restart sequence T i s \<longleftrightarrow>
     take (current_message s) (messages s) @
     map Some (pending_msgs restart (address s) (rw s) (msg_cur_buf_size s) (msg_cur_buf_base s)
       (msg_cur_buf_ptr s) (received_data s) (drop i sequence)) = T"

definition bytes_inv :: "token \<Rightarrow> token list \<Rightarrow> 8 word option list \<Rightarrow> nat \<Rightarrow> compile_state \<Rightarrow> bool" where
  "bytes_inv restart sequence T i s \<longleftrightarrow>
     take (msg_cur_buf_ptr s) (msg_buf s) @
       map Some (pending_bytes restart (rw s) (drop i sequence)) = T \<and>
     drop (msg_cur_buf_ptr s) (msg_buf s) = replicate (length (msg_buf s) - msg_cur_buf_ptr s) None"

text \<open>
  The sequences the specification describes, built from their segments. A transaction
  is a list of segments, each an address token and the tokens behind it;
  \<open>sequence_of\<close> writes it as a sequence, with a restart between two segments. The list
  is well formed when it is not empty, every segment has at least one token behind its
  address, none of these tokens is the restart, and no address behind a restart is the
  restart.
\<close>

fun sequence_of :: "token \<Rightarrow> (token \<times> token list) list \<Rightarrow> token list" where
  "sequence_of r [] = []"
| "sequence_of r [(a, ds)] = a # ds"
| "sequence_of r ((a, ds) # seg # segs) = a # ds @ r # sequence_of r (seg # segs)"

definition well_formed_segments :: "token \<Rightarrow> (token \<times> token list) list \<Rightarrow> bool" where
  "well_formed_segments restart segs \<longleftrightarrow>
     segs \<noteq> [] \<and> (\<forall>(a, ds)\<in>set segs. ds \<noteq> [] \<and> restart \<notin> set ds) \<and>
     (\<forall>(a, ds)\<in>set (tl segs). a \<noteq> restart)"

text \<open>
  The messages and the staged bytes for such a list, segment by segment: one message
  for each segment, in order, with the address and the flag decoded from the address
  token, the number of tokens behind the address as length (in the 16 bits of the
  field), and as buffer the place in \<^verbatim>\<open>msg_buf\<close> behind the bytes of the writes
  before it, or the place in the receive buffer behind the bytes of the reads before it;
  and in \<^verbatim>\<open>msg_buf\<close> the low bytes of the tokens of the write segments, in order.
\<close>

fun segment_messages :: "nat \<Rightarrow> nat \<Rightarrow> (token \<times> token list) list \<Rightarrow> i2c_msg list" where
  "segment_messages b off [] = []"
| "segment_messages b off ((a, ds) # segs) =
     \<lparr>addr = decoded_addr a, flags = decoded_flags a, len = of_nat (length ds),
      buf = (if bit a 0 then Received off else Msg_buf b)\<rparr> #
     segment_messages (if bit a 0 then b else b + length ds)
       (if bit a 0 then off + length ds else off) segs"

definition staged_bytes :: "(token \<times> token list) list \<Rightarrow> 8 word list" where
  "staged_bytes segs = concat (map (\<lambda>(a, ds). if bit a 0 then [] else map ucast ds) segs)"

section \<open>Properties\<close>

subsection \<open>The segment counter\<close>

lemma count_segments_loop_filter:
  "i \<le> length sequence \<Longrightarrow>
   count_segments_loop restart sequence i n =
     n + length (filter (\<lambda>t. t = restart) (drop i sequence))"
proof (induction restart sequence i n rule: count_segments_loop.induct)
  case (1 restart sequence i n)
  show ?case
  proof (cases "i < length sequence")
    case True
    then have d: "drop i sequence = sequence ! i # drop (Suc i) sequence"
      by (simp add: Cons_nth_drop_Suc)
    from True have "Suc i \<le> length sequence" by simp
    with "1.IH" [OF True] True d show ?thesis
      by (subst count_segments_loop.simps) simp
  next
    case False
    with "1.prems" show ?thesis
      by (subst count_segments_loop.simps) simp
  qed
qed

lemma count_segments_filter:
  "count_segments restart sequence = 1 + length (filter (\<lambda>t. t = restart) (tl sequence))"
proof (cases "1 \<le> length sequence")
  case True
  then show ?thesis
    by (simp add: count_segments_def count_segments_loop_filter drop_Suc)
next
  case False
  then have "sequence = []" by (cases sequence) simp_all
  then show ?thesis
    by (simp add: count_segments_def count_segments_loop.simps)
qed

subsection \<open>The two guards\<close>

text \<open>
  C6, as the code has it. A sequence of fewer than two tokens makes the call return -1
  without any transport call. Both allocations have been made by then (the message
  array for the one segment \<^verbatim>\<open>count_segments\<close> reports, and \<^verbatim>\<open>sequence_length\<close>
  bytes), and both are freed before the return.
\<close>

theorem short_sequence_fails:
  "length sequence < 2 \<Longrightarrow>
   i2c_send_sequence restart ioctl handle sequence =
     Inr \<lparr>result = - 1,
          trace = [Malloc_messages 1, Malloc_msg_buf (length sequence),
                   Free_msg_buf, Free_messages]\<rparr> \<and>
   submissions (i2c_send_sequence restart ioctl handle sequence) = []"
proof -
  assume short: "length sequence < 2"
  then have "tl sequence = []"
    by (cases sequence) simp_all
  then have "count_segments restart sequence = 1"
    by (simp add: count_segments_filter)
  with short show ?thesis
    by (simp add: i2c_send_sequence_def submissions_def Let_def)
qed

theorem short_sequence_fails_witness:
  "i2c_send_sequence 0x100 transport_ok 3 [0x70] =
     Inr \<lparr>result = - 1,
          trace = [Malloc_messages 1, Malloc_msg_buf 1, Free_msg_buf, Free_messages]\<rparr> \<and>
   submissions (i2c_send_sequence 0x100 transport_ok 3 [0x70]) = []"
  using short_sequence_fails [of "[0x70]" "0x100" transport_ok 3]
  by (simp add: submissions_def)

text \<open>
  C6 as the specification words it says that such a call performs no allocation. The
  call with the one-token sequence \<open>[0x70]\<close> performs two.
\<close>

theorem short_sequence_allocates:
  "allocations (i2c_send_sequence 0x100 transport_ok 3 [0x70]) =
     [Malloc_messages 1, Malloc_msg_buf 1] \<and>
   allocations (i2c_send_sequence 0x100 transport_ok 3 [0x70]) \<noteq> []"
proof -
  have "count_segments 0x100 [0x70] = 1"
    by (simp add: count_segments_filter)
  then show ?thesis
    by (simp add: i2c_send_sequence_def allocations_def Let_def)
qed

text \<open>
  C7. When the segment count, one more than the number of restart tokens behind token 0,
  exceeds the limit of 42, the call returns -1 and its effects are the two allocations
  and their release: the transport is never called.
\<close>

theorem too_many_segments_fails:
  "I2C_RDRW_IOCTL_MAX_MSGS < 1 + length (filter (\<lambda>t. t = restart) (tl sequence)) \<Longrightarrow>
   I2C_RDRW_IOCTL_MAX_MSGS = 42 \<and>
   i2c_send_sequence restart ioctl handle sequence =
     Inr \<lparr>result = - 1,
          trace = [Malloc_messages (count_segments restart sequence),
                   Malloc_msg_buf (length sequence), Free_msg_buf, Free_messages]\<rparr> \<and>
   submissions (i2c_send_sequence restart ioctl handle sequence) = []"
  by (simp add: i2c_send_sequence_def submissions_def count_segments_filter
      I2C_RDRW_IOCTL_MAX_MSGS_def Let_def)

theorem too_many_segments_fails_witness:
  "i2c_send_sequence 0x100 transport_ok 3 (0x70 # replicate 42 0x100) =
     Inr \<lparr>result = - 1,
          trace = [Malloc_messages 43, Malloc_msg_buf 43, Free_msg_buf, Free_messages]\<rparr> \<and>
   submissions (i2c_send_sequence 0x100 transport_ok 3 (0x70 # replicate 42 0x100)) = []"
  using too_many_segments_fails [of "0x100" "0x70 # replicate 42 0x100" transport_ok 3]
  by (simp add: I2C_RDRW_IOCTL_MAX_MSGS_def count_segments_filter submissions_def)

subsection \<open>The loop, one pass at a time\<close>

lemma stage_token_Inr:
  assumes "stage_token restart sequence i s = Inr s1"
  shows "messages s1 = messages s" "current_message s1 = current_message s"
    "address s1 = address s" "rw s1 = rw s" "received_data s1 = received_data s"
    "msg_cur_buf_base s1 = msg_cur_buf_base s"
    "msg_cur_buf_size s1 = (if sequence ! i \<noteq> restart then msg_cur_buf_size s + 1 else msg_cur_buf_size s)"
    "msg_cur_buf_ptr s1 = (if sequence ! i \<noteq> restart \<and> rw s = WRITING then msg_cur_buf_ptr s + 1 else msg_cur_buf_ptr s)"
    "msg_buf s1 = (if sequence ! i \<noteq> restart \<and> rw s = WRITING
       then (msg_buf s)[msg_cur_buf_ptr s := Some (ucast (sequence ! i))] else msg_buf s)"
    "sequence ! i \<noteq> restart \<Longrightarrow> rw s = WRITING \<Longrightarrow> msg_cur_buf_ptr s < length (msg_buf s)"
  using assms by (auto simp: stage_token_def split: if_splits)

lemma close_segment_Inr:
  assumes "close_segment restart sequence i s = Inr (i', s')"
  defines "c \<equiv> sequence ! i = restart \<or> i = length sequence - 1"
  defines "nx \<equiv> c \<and> i < length sequence - 2"
  shows "i' = (if nx then i + 1 else i)"
    "messages s' = (if c then (messages s)[current_message s := Some (fill_message s)] else messages s)"
    "current_message s' = (if c then current_message s + 1 else current_message s)"
    "msg_buf s' = msg_buf s" "msg_cur_buf_ptr s' = msg_cur_buf_ptr s"
    "msg_cur_buf_base s' = (if nx then msg_cur_buf_ptr s else msg_cur_buf_base s)"
    "msg_cur_buf_size s' = (if nx then 0 else msg_cur_buf_size s)"
    "address s' = (if nx then ucast (sequence ! (i + 1)) else address s)"
    "rw s' = (if nx then ucast (sequence ! (i + 1)) AND 1 else rw s)"
    "received_data s' = (if c \<and> rw s = READING then received_data s + msg_cur_buf_size s else received_data s)"
    "c \<Longrightarrow> current_message s < length (messages s)"
  using assms(1) unfolding c_def nx_def
  by (auto simp: close_segment_def Let_def split: if_splits)

lemma loop_body_Inr:
  assumes body: "loop_body restart sequence i s = Inr (i', s')"
  defines "c \<equiv> sequence ! i = restart \<or> i = length sequence - 1"
  defines "nx \<equiv> c \<and> i < length sequence - 2"
  defines "w \<equiv> sequence ! i \<noteq> restart \<and> rw s = WRITING"
  shows "i' = (if nx then i + 1 else i)"
    "messages s' = (if c then (messages s)[current_message s := Some (closing_message restart sequence i s)]
                    else messages s)"
    "current_message s' = (if c then current_message s + 1 else current_message s)"
    "msg_buf s' = (if w then (msg_buf s)[msg_cur_buf_ptr s := Some (ucast (sequence ! i))] else msg_buf s)"
    "msg_cur_buf_ptr s' = (if w then msg_cur_buf_ptr s + 1 else msg_cur_buf_ptr s)"
    "msg_cur_buf_base s' = (if nx then msg_cur_buf_ptr s' else msg_cur_buf_base s)"
    "msg_cur_buf_size s' = (if nx then 0 else closing_size restart sequence i s)"
    "address s' = (if nx then ucast (sequence ! (i + 1)) else address s)"
    "rw s' = (if nx then ucast (sequence ! (i + 1)) AND 1 else rw s)"
    "received_data s' = (if c \<and> rw s = READING
        then received_data s + closing_size restart sequence i s else received_data s)"
    "c \<Longrightarrow> current_message s < length (messages s)"
    "w \<Longrightarrow> msg_cur_buf_ptr s < length (msg_buf s)"
proof -
  from body obtain s1 where st: "stage_token restart sequence i s = Inr s1"
    and cl: "close_segment restart sequence i s1 = Inr (i', s')"
    by (auto simp: loop_body_def split: sum.splits)
  note S = stage_token_Inr [OF st] and C = close_segment_Inr [OF cl]
  have fm: "fill_message s1 = closing_message restart sequence i s"
    by (simp add: fill_message_def closing_message_def closing_size_def S)
  show "i' = (if nx then i + 1 else i)" using C(1) by (simp add: nx_def c_def)
  show "messages s' = (if c then (messages s)[current_message s := Some (closing_message restart sequence i s)]
                    else messages s)" using C(2) by (simp add: c_def S fm)
  show "current_message s' = (if c then current_message s + 1 else current_message s)"
    using C(3) by (simp add: c_def S)
  show "msg_buf s' = (if w then (msg_buf s)[msg_cur_buf_ptr s := Some (ucast (sequence ! i))] else msg_buf s)"
    using C(4) S(9) by (simp add: w_def)
  show p: "msg_cur_buf_ptr s' = (if w then msg_cur_buf_ptr s + 1 else msg_cur_buf_ptr s)"
    using C(5) S(8) by (simp add: w_def)
  show "msg_cur_buf_base s' = (if nx then msg_cur_buf_ptr s' else msg_cur_buf_base s)"
    using C(6) C(5) S(6) by (simp add: nx_def c_def)
  show "msg_cur_buf_size s' = (if nx then 0 else closing_size restart sequence i s)"
    using C(7) S(7) by (simp add: nx_def c_def closing_size_def)
  show "address s' = (if nx then ucast (sequence ! (i + 1)) else address s)"
    using C(8) S(3) by (simp add: nx_def c_def)
  show "rw s' = (if nx then ucast (sequence ! (i + 1)) AND 1 else rw s)"
    using C(9) S(4) by (simp add: nx_def c_def)
  show "received_data s' = (if c \<and> rw s = READING
        then received_data s + closing_size restart sequence i s else received_data s)"
    using C(10) S(4,5,7) by (simp add: c_def closing_size_def)
  show "c \<Longrightarrow> current_message s < length (messages s)"
    using C(11) S(1,2) by (simp add: c_def)
  show "w \<Longrightarrow> msg_cur_buf_ptr s < length (msg_buf s)"
    using S(10) by (simp add: w_def)
qed

lemma compile_loop_rule:
  assumes init: "P i s"
    and step: "\<And>i s. P i s \<Longrightarrow> i < length sequence \<Longrightarrow>
      \<exists>i' s'. loop_body restart sequence i s = Inr (i', s') \<and> P (Suc i') s'"
  shows "\<exists>s' j. compile_loop restart sequence i s = Inr s' \<and> length sequence \<le> j \<and> P j s'"
  using init
proof (induction "length sequence - i" arbitrary: i s rule: less_induct)
  case less
  show ?case
  proof (cases "i < length sequence")
    case False
    then have "compile_loop restart sequence i s = Inr s"
      by (subst compile_loop.simps) simp
    moreover from False have "length sequence \<le> i" by simp
    ultimately show ?thesis using less.prems by blast
  next
    case True
    from step [OF less.prems True] obtain i' s'
      where body: "loop_body restart sequence i s = Inr (i', s')" and P': "P (Suc i') s'"
      by blast
    from body have "i \<le> i'"
      by (auto simp: loop_body_def close_segment_def Let_def split: sum.splits if_splits)
    with True have "length sequence - Suc i' < length sequence - i" by simp
    from less.hyps [OF this P'] obtain s'' j
      where fin: "compile_loop restart sequence (Suc i') s' = Inr s''"
        and j: "length sequence \<le> j" "P j s''"
      by blast
    from True body fin have "compile_loop restart sequence i s = Inr s''"
      by (subst compile_loop.simps) simp
    with j show ?thesis by blast
  qed
qed

lemma drop_last_index: "i < length xs \<Longrightarrow> i = length xs - 1 \<Longrightarrow> drop i xs = [xs ! i]"
  by (simp flip: Cons_nth_drop_Suc)

lemma drop_second_last: "Suc i < length xs \<Longrightarrow> \<not> i < length xs - 2 \<Longrightarrow> drop i xs = [xs ! i, xs ! Suc i]"
  by (simp flip: Cons_nth_drop_Suc)

lemma drop_three: "i < length xs - 2 \<Longrightarrow>
    drop i xs = xs ! i # xs ! Suc i # xs ! Suc (Suc i) # drop (Suc (Suc (Suc i))) xs"
  by (simp flip: Cons_nth_drop_Suc)

lemma safe_inv_step:
  assumes inv: "safe_inv restart sequence K M i s" and lt: "i < length sequence"
  shows "\<exists>i' s'. loop_body restart sequence i s = Inr (i', s') \<and> safe_inv restart sequence K M (Suc i') s'"
proof -
  consider (last) "i = length sequence - 1"
    | (second) "Suc i < length sequence" "\<not> i < length sequence - 2"
    | (inner) "i < length sequence - 2"
    using lt by linarith
  then show ?thesis
  proof cases
    case last
    with lt have d: "drop i sequence = [sequence ! i]" by (rule_tac drop_last_index)
    from last lt have nl: "\<not> i < length sequence - 2" by arith
    from inv lt last d nl show ?thesis
      by (cases "sequence ! i = restart"; cases "rw s = WRITING"; simp add: safe_inv_def loop_body_def stage_token_def close_segment_def Let_def WRITING_def READING_def)
  next
    case second
    then have d: "drop i sequence = [sequence ! i, sequence ! Suc i]" by (rule drop_second_last)
    from second have d': "drop (Suc i) sequence = [sequence ! Suc i]" by (simp add: drop_last_index)
    from second have nl: "i \<noteq> length sequence - 1" by arith
    from inv lt second d d' nl show ?thesis
      by (cases "sequence ! i = restart"; cases "rw s = WRITING"; simp add: safe_inv_def loop_body_def stage_token_def close_segment_def Let_def WRITING_def READING_def)
  next
    case inner
    then have d: "drop i sequence = sequence ! i # sequence ! Suc i # sequence ! Suc (Suc i) # drop (Suc (Suc (Suc i))) sequence"
      by (rule drop_three)
    then have d': "drop (Suc i) sequence = sequence ! Suc i # sequence ! Suc (Suc i) # drop (Suc (Suc (Suc i))) sequence"
      and d'': "drop (Suc (Suc i)) sequence = sequence ! Suc (Suc i) # drop (Suc (Suc (Suc i))) sequence"
      by (metis drop_Suc list.sel(3) tl_drop)+
    from inner have nl: "i \<noteq> length sequence - 1" by arith
    from inv lt inner d d' d'' nl show ?thesis
      by (cases "sequence ! i = restart"; cases "rw s = WRITING"; simp add: safe_inv_def loop_body_def stage_token_def close_segment_def Let_def WRITING_def READING_def)
  qed
qed

lemma compile_loop_invariant:
  assumes safe: "safe_inv restart sequence K M i s" and init: "Q i s"
    and step: "\<And>i s i' s'. safe_inv restart sequence K M i s \<Longrightarrow> Q i s \<Longrightarrow>
      i < length sequence \<Longrightarrow> loop_body restart sequence i s = Inr (i', s') \<Longrightarrow> Q (Suc i') s'"
  shows "\<exists>s'. compile_loop restart sequence i s = Inr s' \<and>
    safe_inv restart sequence K M (length sequence) s' \<and> Q (length sequence) s'"
proof -
  let ?P = "\<lambda>i s. safe_inv restart sequence K M i s \<and> Q i s"
  have "\<exists>s' j. compile_loop restart sequence i s = Inr s' \<and> length sequence \<le> j \<and> ?P j s'"
  proof (rule compile_loop_rule [where P = ?P])
    show "?P i s" using safe init by simp
  next
    fix i s
    assume P: "?P i s" and lt: "i < length sequence"
    from safe_inv_step [of restart sequence K M i s] P lt obtain i' s'
      where b: "loop_body restart sequence i s = Inr (i', s')"
        and s: "safe_inv restart sequence K M (Suc i') s'"
      by blast
    from step [OF _ _ lt b] P have "Q (Suc i') s'" by simp
    with b s show "\<exists>i' s'. loop_body restart sequence i s = Inr (i', s') \<and> ?P (Suc i') s'"
      by blast
  qed
  then obtain s' j where r: "compile_loop restart sequence i s = Inr s'"
    and j: "length sequence \<le> j" and P: "?P j s'"
    by blast
  from P have "j \<le> length sequence" by (simp add: safe_inv_def)
  with j have "j = length sequence" by simp
  with r P show ?thesis by blast
qed

lemma closes_bound:
  "closes r xs \<le> restarts r xs + (if xs \<noteq> [] \<and> last xs \<noteq> r then 1 else 0)"
  by (induction r xs rule: closes.induct) auto


lemma init_safe:
  assumes "2 \<le> length sequence"
  shows "safe_inv restart sequence (closes restart (tl sequence)) (count_segments restart sequence) 1
     (init_state sequence (count_segments restart sequence))"
proof -
  from closes_bound [of restart "tl sequence"]
  have "closes restart (tl sequence) \<le> count_segments restart sequence"
    by (simp add: count_segments_filter split: if_splits)
  with assms show ?thesis
    by (simp add: safe_inv_def init_state_def drop_Suc)
qed

lemma compile_sequence_invariant:
  assumes len: "2 \<le> length sequence"
    and init: "Q 1 (init_state sequence (count_segments restart sequence))"
    and step: "\<And>i s i' s'.
      safe_inv restart sequence (closes restart (tl sequence)) (count_segments restart sequence) i s \<Longrightarrow>
      Q i s \<Longrightarrow> i < length sequence \<Longrightarrow> loop_body restart sequence i s = Inr (i', s') \<Longrightarrow>
      Q (Suc i') s'"
  shows "\<exists>s. compile_sequence restart sequence = Inr s \<and>
    length (msg_buf s) = length sequence \<and> msg_cur_buf_ptr s < length sequence \<and>
    length (messages s) = count_segments restart sequence \<and>
    current_message s = closes restart (tl sequence) \<and> Q (length sequence) s"
proof -
  have "\<exists>s'. compile_loop restart sequence 1 (init_state sequence (count_segments restart sequence)) = Inr s' \<and>
    safe_inv restart sequence (closes restart (tl sequence)) (count_segments restart sequence)
      (length sequence) s' \<and> Q (length sequence) s'"
    by (rule compile_loop_invariant [where Q = Q, OF init_safe [OF len] init]) (rule step)
  then show ?thesis
    by (auto simp: compile_sequence_def safe_inv_def)
qed

lemma compile_sequence_safe:
  assumes "2 \<le> length sequence"
  shows "\<exists>s. compile_sequence restart sequence = Inr s \<and>
    length (msg_buf s) = length sequence \<and> msg_cur_buf_ptr s < length sequence \<and>
    length (messages s) = count_segments restart sequence \<and>
    current_message s = closes restart (tl sequence)"
  using compile_sequence_invariant [where Q = "\<lambda>i s. True", OF assms] by simp

lemma i2c_send_sequence_no_fault:
  "\<exists>out. i2c_send_sequence restart ioctl handle sequence = Inr out"
proof (cases "2 \<le> length sequence")
  case True
  from compile_sequence_safe [OF True, of restart] obtain s
    where "compile_sequence restart sequence = Inr s" by blast
  then show ?thesis
    by (simp add: i2c_send_sequence_def Let_def)
next
  case False
  then show ?thesis
    by (simp add: i2c_send_sequence_def Let_def)
qed

lemma written_cells:
  "(\<forall>k<length xs. (xs ! k \<noteq> None) = (k < p)) \<Longrightarrow> p \<le> length xs \<Longrightarrow>
   length (filter (\<lambda>c. c \<noteq> None) xs) = p"
proof (induction xs arbitrary: p)
  case Nil
  then show ?case by simp
next
  case (Cons x xs)
  show ?case
  proof (cases p)
    case 0
    with Cons.prems have "\<forall>k<length (x # xs). (x # xs) ! k = None" by simp
    then have "\<forall>c\<in>set (x # xs). c = None"
      by (metis in_set_conv_nth)
    then have "filter (\<lambda>c. c \<noteq> None) (x # xs) = []"
      by (simp add: filter_empty_conv)
    with 0 show ?thesis by simp
  next
    case (Suc q)
    from Cons.prems(1) Suc have x: "x \<noteq> None" by force
    from Cons.prems(1) Suc have "\<forall>k<length xs. (xs ! k \<noteq> None) = (k < q)" by force
    moreover from Cons.prems(2) Suc have "q \<le> length xs" by simp
    ultimately have "length (filter (\<lambda>c. c \<noteq> None) xs) = q" by (rule Cons.IH)
    with x Suc show ?thesis by simp
  qed
qed

subsection \<open>Decoding the address token\<close>

lemma ucast_and_1: "(ucast (a :: token) :: 8 word) AND 1 = ucast (a AND 1)"
  by (simp add: unsigned_and_eq)


lemma write_token: "(a :: token) AND 1 = 0 \<Longrightarrow> (ucast a :: 8 word) AND 1 = 0"
  by (simp only: ucast_and_1) simp

lemma read_token: "(a :: token) AND 1 = 1 \<Longrightarrow> (ucast a :: 8 word) AND 1 = 1"
  by (simp only: ucast_and_1) simp

lemmas run_defs =
  compile_sequence_def init_state_def count_segments_filter compile_loop.simps loop_body_def
  stage_token_def close_segment_def fill_message_def Let_def WRITING_def READING_def

lemma take_Suc_update:
  "n < length xs \<Longrightarrow> take (Suc n) (xs[n := v]) = take n xs @ [v]"
  by (simp add: take_Suc_conv_app_nth)

subsection \<open>The address fields as an invariant\<close>

lemma token_and_1: "(tok :: token) AND 1 = (if bit tok 0 then 1 else 0)"
  by (simp add: and_one_eq mod_2_eq_odd bit_0)

lemma ucast_bit0: "(ucast (tok :: token) :: 8 word) AND 1 = (if bit tok 0 then 1 else 0)"
  by (simp only: ucast_and_1 token_and_1) simp

lemma message_fields_decoded:
  "message_fields (ucast tok) (ucast tok AND 1) = (decoded_addr tok, decoded_flags tok)"
  by (simp add: message_fields_def decoded_addr_def decoded_flags_def ucast_bit0)

lemma fields_inv_step:
  assumes inv: "fields_inv restart sequence T i s" and lt: "i < length sequence"
    and body: "loop_body restart sequence i s = Inr (i', s')"
  shows "fields_inv restart sequence T (Suc i') s'"
proof -
  note B = loop_body_Inr [OF body]
  let ?m = "closing_message restart sequence i s"
  let ?f = "Some (message_fields (address s) (rw s))"
  have fm: "fields_of (Some ?m) = ?f"
    by (simp add: fields_of_def closing_message_def message_fields_def)
  have closed: "map fields_of (take (current_message s') (messages s')) =
      map fields_of (take (current_message s) (messages s)) @ [?f]"
    if c: "sequence ! i = restart \<or> i = length sequence - 1"
  proof -
    from c have "current_message s < length (messages s)" by (rule B(11))
    with c show ?thesis by (simp add: B(2,3) take_Suc_update fm)
  qed
  have kept: "map fields_of (take (current_message s') (messages s')) =
      map fields_of (take (current_message s) (messages s))"
    if "\<not> (sequence ! i = restart \<or> i = length sequence - 1)"
    using that by (simp add: B(2,3))
  consider (last) "i = length sequence - 1"
    | (second) "Suc i < length sequence" "\<not> i < length sequence - 2"
    | (inner) "i < length sequence - 2"
    using lt by linarith
  then show ?thesis
  proof cases
    case last
    with lt have d: "drop i sequence = [sequence ! i]" by (rule_tac drop_last_index)
    from last lt have nl: "\<not> i < length sequence - 2" by arith
    from last have c: "sequence ! i = restart \<or> i = length sequence - 1" by simp
    from last lt have e: "drop (Suc i) sequence = []" by simp
    from inv show ?thesis
      by (simp add: fields_inv_def closed [OF c] d e B(1,8,9) nl)
  next
    case second
    then have d: "drop i sequence = [sequence ! i, sequence ! Suc i]" by (rule drop_second_last)
    from second have d': "drop (Suc i) sequence = [sequence ! Suc i]" by (simp add: drop_last_index)
    from second have nl: "i \<noteq> length sequence - 1" by arith
    show ?thesis
    proof (cases "sequence ! i = restart")
      case True
      then have c: "sequence ! i = restart \<or> i = length sequence - 1" by simp
      from inv True second(2) show ?thesis
        by (simp add: fields_inv_def closed [OF c] d d' B(1,8,9))
    next
      case False
      with nl have c: "\<not> (sequence ! i = restart \<or> i = length sequence - 1)" by simp
      from inv False nl show ?thesis
        by (simp add: fields_inv_def kept [OF c] d d' B(1,8,9))
    qed
  next
    case inner
    then have d: "drop i sequence = sequence ! i # sequence ! Suc i # sequence ! Suc (Suc i) # drop (Suc (Suc (Suc i))) sequence"
      by (rule drop_three)
    then have d': "drop (Suc i) sequence = sequence ! Suc i # sequence ! Suc (Suc i) # drop (Suc (Suc (Suc i))) sequence"
      and d'': "drop (Suc (Suc i)) sequence = sequence ! Suc (Suc i) # drop (Suc (Suc (Suc i))) sequence"
      by (metis drop_Suc list.sel(3) tl_drop)+
    from inner have nl: "i \<noteq> length sequence - 1" by arith
    show ?thesis
    proof (cases "sequence ! i = restart")
      case True
      then have c: "sequence ! i = restart \<or> i = length sequence - 1" by simp
      from inv True inner show ?thesis
        by (simp add: fields_inv_def closed [OF c] d d'' B(1,8,9))
    next
      case False
      with nl have c: "\<not> (sequence ! i = restart \<or> i = length sequence - 1)" by simp
      from inv False nl show ?thesis
        by (simp add: fields_inv_def kept [OF c] d d' B(1,8,9))
    qed
  qed
qed

lemma pending_hd: "xs \<noteq> [] \<Longrightarrow> \<exists>fs. pending_fields r a w xs = message_fields a w # fs"
  by (induction r a w xs rule: pending_fields.induct) auto

lemma pending_well_formed:
  "restarts_well_formed r xs \<Longrightarrow> xs \<noteq> [] \<Longrightarrow>
   pending_fields r (ucast a) (ucast a AND 1) xs =
     map (\<lambda>tok. (decoded_addr tok, decoded_flags tok)) (a # tokens_after_restart r xs)"
proof (induction r "ucast a :: 8 word" "ucast a AND (1 :: 8 word)" xs arbitrary: a rule: pending_fields.induct)
  case (4 r x y z rest)
  then show ?case
    by (auto simp: message_fields_decoded)
qed (auto simp: message_fields_decoded)

lemma closes_well_formed:
  "restarts_well_formed r xs \<Longrightarrow> xs \<noteq> [] \<Longrightarrow> closes r xs = restarts r xs + 1"
  by (induction r xs rule: closes.induct) (auto split: if_splits)

lemma decoded_addr_byte:
  assumes "tok < 0x100"
  shows "decoded_addr tok = drop_bit 1 tok"
proof -
  from assms have "tok < 2 ^ 8" by simp
  then have tb: "take_bit 8 tok = tok"
    by (simp add: less_mask_eq take_bit_eq_mask)
  have hi: "n < 8" if "bit tok n" for n
  proof -
    from that tb have "bit (take_bit 8 tok) n" by simp
    then show ?thesis by (simp add: bit_take_bit_iff)
  qed
  show ?thesis
    unfolding decoded_addr_def
  proof (rule bit_word_eqI)
    fix n assume "n < LENGTH(16)"
    show "bit (ucast (drop_bit 1 (ucast tok :: 8 word)) :: 16 word) n = bit (drop_bit 1 tok) n"
      using hi [of "Suc n"] by (auto simp: bit_simps)
  qed
qed

lemma compile_sequence_fields:
  assumes len: "2 \<le> length sequence"
  shows "\<exists>s. compile_sequence restart sequence = Inr s \<and>
    length (messages s) = count_segments restart sequence \<and>
    current_message s = closes restart (tl sequence) \<and>
    map fields_of (take (current_message s) (messages s)) =
      map Some (pending_fields restart (ucast (sequence ! 0)) (ucast (sequence ! 0) AND 1) (tl sequence))"
proof -
  let ?T = "map Some (pending_fields restart (ucast (sequence ! 0)) (ucast (sequence ! 0) AND 1) (tl sequence))"
  have "\<exists>s. compile_sequence restart sequence = Inr s \<and>
    length (msg_buf s) = length sequence \<and> msg_cur_buf_ptr s < length sequence \<and>
    length (messages s) = count_segments restart sequence \<and>
    current_message s = closes restart (tl sequence) \<and>
    fields_inv restart sequence ?T (length sequence) s"
  proof (rule compile_sequence_invariant [where Q = "fields_inv restart sequence ?T", OF len])
    show "fields_inv restart sequence ?T 1 (init_state sequence (count_segments restart sequence))"
      by (simp add: fields_inv_def init_state_def drop_Suc)
  next
    fix i s i' s'
    assume "fields_inv restart sequence ?T i s" "i < length sequence"
      "loop_body restart sequence i s = Inr (i', s')"
    then show "fields_inv restart sequence ?T (Suc i') s'" by (rule fields_inv_step)
  qed
  then show ?thesis by (auto simp: fields_inv_def)
qed

subsection \<open>The call behind both guards\<close>

lemma i2c_send_sequence_accepted:
  assumes "2 \<le> length sequence" and "count_segments restart sequence \<le> I2C_RDRW_IOCTL_MAX_MSGS"
  shows "\<exists>s. compile_sequence restart sequence = Inr s \<and>
    i2c_send_sequence restart ioctl handle sequence =
      Inr \<lparr>result = ioctl handle \<lparr>msgs = messages s, nmsgs = count_segments restart sequence,
                                   staged = msg_buf s\<rparr>,
           trace = [Malloc_messages (count_segments restart sequence),
                    Malloc_msg_buf (length sequence),
                    Ioctl handle \<lparr>msgs = messages s, nmsgs = count_segments restart sequence,
                                  staged = msg_buf s\<rparr>,
                    Free_msg_buf, Free_messages]\<rparr>"
proof -
  from compile_sequence_safe [OF assms(1), of restart] obtain s
    where "compile_sequence restart sequence = Inr s" by blast
  with assms show ?thesis
    by (simp add: i2c_send_sequence_def Let_def)
qed

subsection \<open>Three fixed shapes\<close>

text \<open>
  C2. The sequence \<open>[addr1|WRITE, d1, RESTART, addr2|READ, READ]\<close>: \<open>a1\<close> has bit 0
  clear, \<open>a2\<close> has it set, and \<open>d1\<close>, \<open>a2\<close> and the read placeholder \<open>rd\<close> are
  not the restart token. The pass fills exactly two messages and stops in the state
  shown: the first message is a write of length 1 whose buffer is offset 0 of
  \<^verbatim>\<open>msg_buf\<close>, where the low byte of \<open>d1\<close> stands; the second is a read of length 1
  into offset 0 of the caller's buffer. \<^verbatim>\<open>count_segments\<close> reports 2.
\<close>

theorem restart_sequence_two_segments:
  assumes "a1 AND 1 = 0" and "a2 AND 1 = 1"
    and "d1 \<noteq> restart" and "a2 \<noteq> restart" and "rd \<noteq> restart"
  shows "compile_sequence restart [a1, d1, restart, a2, rd] =
     Inr \<lparr>messages =
            [Some \<lparr>addr = ucast (drop_bit 1 (ucast a1 :: 8 word)), flags = 0, len = 1,
                   buf = Msg_buf 0\<rparr>,
             Some \<lparr>addr = ucast (drop_bit 1 (ucast a2 :: 8 word)), flags = I2C_M_RD, len = 1,
                   buf = Received 0\<rparr>],
          current_message = 2,
          msg_buf = [Some (ucast d1), None, None, None, None],
          msg_cur_buf_ptr = 1, msg_cur_buf_base = 1, msg_cur_buf_size = 1,
          address = ucast a2, rw = 1, received_data = 1\<rparr> \<and>
    count_segments restart [a1, d1, restart, a2, rd] = 2"
  using assms write_token [OF assms(1)] read_token [OF assms(2)]
  by (simp add: run_defs)

theorem restart_sequence_two_segments_witness:
  "compile_sequence 0x100 [0x70, 0x8a, 0x100, 0x71, 0x200] =
     Inr \<lparr>messages =
            [Some \<lparr>addr = 0x38, flags = 0, len = 1, buf = Msg_buf 0\<rparr>,
             Some \<lparr>addr = 0x38, flags = I2C_M_RD, len = 1, buf = Received 0\<rparr>],
          current_message = 2,
          msg_buf = [Some 0x8a, None, None, None, None],
          msg_cur_buf_ptr = 1, msg_cur_buf_base = 1, msg_cur_buf_size = 1,
          address = 0x71, rw = 1, received_data = 1\<rparr> \<and>
    count_segments 0x100 [0x70, 0x8a, 0x100, 0x71, 0x200] = 2"
  using restart_sequence_two_segments [of "0x70" "0x71" "0x8a" "0x100" "0x200"]
  by simp

text \<open>
  C3. The pure write \<open>[addr|WRITE, b1, b2, b3]\<close> with no restart token among the data:
  one message, a write of length 3 from offset 0 of \<^verbatim>\<open>msg_buf\<close>, which holds the low
  bytes of \<open>b1\<close>, \<open>b2\<close>, \<open>b3\<close> in this order. The data tokens are otherwise arbitrary,
  so the read placeholder is staged like any other value.
\<close>

theorem pure_write_one_segment:
  assumes "a AND 1 = 0"
    and "b1 \<noteq> restart" and "b2 \<noteq> restart" and "b3 \<noteq> restart"
  shows "compile_sequence restart [a, b1, b2, b3] =
     Inr \<lparr>messages =
            [Some \<lparr>addr = ucast (drop_bit 1 (ucast a :: 8 word)), flags = 0, len = 3,
                   buf = Msg_buf 0\<rparr>],
          current_message = 1,
          msg_buf = [Some (ucast b1), Some (ucast b2), Some (ucast b3), None],
          msg_cur_buf_ptr = 3, msg_cur_buf_base = 0, msg_cur_buf_size = 3,
          address = ucast a, rw = 0, received_data = 0\<rparr> \<and>
    count_segments restart [a, b1, b2, b3] = 1"
  using assms write_token [OF assms(1)]
  by (simp add: run_defs)

theorem pure_write_one_segment_witness:
  "compile_sequence 0x100 [0x70, 0x80, 0x03, 0x2a] =
     Inr \<lparr>messages = [Some \<lparr>addr = 0x38, flags = 0, len = 3, buf = Msg_buf 0\<rparr>],
          current_message = 1,
          msg_buf = [Some 0x80, Some 0x03, Some 0x2a, None],
          msg_cur_buf_ptr = 3, msg_cur_buf_base = 0, msg_cur_buf_size = 3,
          address = 0x70, rw = 0, received_data = 0\<rparr> \<and>
    count_segments 0x100 [0x70, 0x80, 0x03, 0x2a] = 1"
  using pure_write_one_segment [of "0x70" "0x80" "0x100" "0x03" "0x2a"]
  by simp

lemma msg_buf_cursor:
  assumes "2 \<le> length sequence"
  shows "\<exists>s. compile_sequence restart sequence = Inr s \<and>
    length (msg_buf s) = length sequence \<and>
    msg_cur_buf_ptr s \<le> length sequence - 1 \<and>
    length (filter (\<lambda>c. c \<noteq> None) (msg_buf s)) = msg_cur_buf_ptr s"
proof -
  let ?Q = "\<lambda>i s. \<forall>k<length (msg_buf s). (msg_buf s ! k \<noteq> None) = (k < msg_cur_buf_ptr s)"
  have "\<exists>s. compile_sequence restart sequence = Inr s \<and>
    length (msg_buf s) = length sequence \<and> msg_cur_buf_ptr s < length sequence \<and>
    length (messages s) = count_segments restart sequence \<and>
    current_message s = closes restart (tl sequence) \<and> ?Q (length sequence) s"
  proof (rule compile_sequence_invariant [where Q = ?Q, OF assms])
    show "?Q 1 (init_state sequence (count_segments restart sequence))"
      by (simp add: init_state_def)
  next
    fix i s i' s'
    assume Q: "?Q i s" and body: "loop_body restart sequence i s = Inr (i', s')"
    note B = loop_body_Inr [OF body]
    show "?Q (Suc i') s'"
    proof (cases "sequence ! i \<noteq> restart \<and> rw s = WRITING")
      case True
      with Q B(12) show ?thesis
        by (auto simp: B(4,5) nth_list_update)
    next
      case False
      with Q show ?thesis
        by (auto simp: B(4,5))
    qed
  qed
  then obtain s where s: "compile_sequence restart sequence = Inr s"
    "length (msg_buf s) = length sequence" "msg_cur_buf_ptr s < length sequence"
    "?Q (length sequence) s"
    by blast
  from written_cells [OF s(4)] s(2,3)
  have "length (filter (\<lambda>c. c \<noteq> None) (msg_buf s)) = msg_cur_buf_ptr s" by simp
  with s show ?thesis by auto
qed

subsection \<open>The write-scratch buffer\<close>

text \<open>
  C8. For a sequence of \<open>L \<ge> 2\<close> tokens the pass ends without a fault, so no write went
  past the \<open>L\<close> bytes of \<^verbatim>\<open>msg_buf\<close> (nor past the message array); the write cursor
  ends at most at \<open>L - 1\<close>, and the cells of \<^verbatim>\<open>msg_buf\<close> that were written are exactly
  those below the cursor, so the number of bytes staged is the cursor's value. The call
  as a whole never faults, whatever the sequence.
\<close>

theorem msg_buf_within_allocation:
  "(\<exists>out. i2c_send_sequence restart ioctl handle sequence = Inr out) \<and>
   (2 \<le> length sequence \<longrightarrow>
      (\<exists>s. compile_sequence restart sequence = Inr s \<and>
         length (msg_buf s) = length sequence \<and>
         msg_cur_buf_ptr s \<le> length sequence - 1 \<and>
         length (filter (\<lambda>c. c \<noteq> None) (msg_buf s)) = msg_cur_buf_ptr s))"
  using i2c_send_sequence_no_fault [of restart ioctl handle sequence]
    msg_buf_cursor [of sequence restart]
  by blast

theorem msg_buf_within_allocation_witness:
  "2 \<le> length [0x70, 0x80, 0x03 :: token] \<and>
   (\<exists>out. i2c_send_sequence 0x100 transport_ok 3 [0x70, 0x80, 0x03] = Inr out) \<and>
   (\<exists>s. compile_sequence 0x100 [0x70, 0x80, 0x03] = Inr s \<and>
     length (msg_buf s) = length [0x70, 0x80, 0x03 :: token] \<and>
     msg_cur_buf_ptr s \<le> length [0x70, 0x80, 0x03 :: token] - 1 \<and>
     length (filter (\<lambda>c. c \<noteq> None) (msg_buf s)) = msg_cur_buf_ptr s)"
  using msg_buf_within_allocation
    [where restart = "0x100" and ioctl = transport_ok and handle = 3
      and sequence = "[0x70, 0x80, 0x03]"]
  by simp

subsection \<open>Counted and filled segments\<close>





subsection \<open>Offsets into the receive buffer\<close>







subsection \<open>Address and direction of the messages\<close>

text \<open>
  C5, as the code has it. For a sequence of at least two tokens the first message has
  the flag \<^verbatim>\<open>I2C_M_RD\<close> exactly when bit 0 of token 0 is set, and its address field is
  the low byte of token 0 shifted right by one. For a sequence in which every restart is
  followed by an address token and at least one more token, the messages are, in order,
  one for token 0 and one for each token behind a restart, each decoded in this way.
  For a token below \<open>0x100\<close> the low byte is the token, and the address field is the
  token shifted right by one.
\<close>

theorem address_decoding:
  "(2 \<le> length sequence \<longrightarrow>
      (\<exists>s m. compile_sequence restart sequence = Inr s \<and> messages s ! 0 = Some m \<and>
         addr m = decoded_addr (sequence ! 0) \<and> flags m = decoded_flags (sequence ! 0))) \<and>
   (2 \<le> length sequence \<and> restarts_well_formed restart (tl sequence) \<longrightarrow>
      (\<exists>s. compile_sequence restart sequence = Inr s \<and>
         map fields_of (messages s) =
           map (\<lambda>tok. Some (decoded_addr tok, decoded_flags tok))
             (sequence ! 0 # tokens_after_restart restart (tl sequence)))) \<and>
   (tok < 0x100 \<longrightarrow> decoded_addr tok = drop_bit 1 tok)"
proof (intro conjI impI)
  assume len: "2 \<le> length sequence"
  then have tl: "tl sequence \<noteq> []" by (cases sequence; cases "tl sequence"; simp)
  from compile_sequence_fields [OF len, of restart] obtain s
    where s: "compile_sequence restart sequence = Inr s"
      and f: "map fields_of (take (current_message s) (messages s)) =
        map Some (pending_fields restart (ucast (sequence ! 0)) (ucast (sequence ! 0) AND 1) (tl sequence))"
    by blast
  from pending_hd [OF tl] obtain fs
    where "pending_fields restart (ucast (sequence ! 0)) (ucast (sequence ! 0) AND 1) (tl sequence) =
      message_fields (ucast (sequence ! 0)) (ucast (sequence ! 0) AND 1) # fs"
    by blast
  with f have m: "map fields_of (take (current_message s) (messages s)) =
      Some (decoded_addr (sequence ! 0), decoded_flags (sequence ! 0)) # map Some fs"
    by (simp add: message_fields_decoded)
  then obtain c cs where tk: "take (current_message s) (messages s) = c # cs"
    and c: "fields_of c = Some (decoded_addr (sequence ! 0), decoded_flags (sequence ! 0))"
    by (cases "take (current_message s) (messages s)") auto
  from tk have "messages s ! 0 = c"
    by (metis hd_conv_nth list.sel(1) take_eq_Nil nth_take length_greater_0_conv list.distinct(1) length_take min_less_iff_conj)
  with c obtain m where "messages s ! 0 = Some m" "addr m = decoded_addr (sequence ! 0)"
    "flags m = decoded_flags (sequence ! 0)"
    by (auto simp: fields_of_def)
  with s show "\<exists>s m. compile_sequence restart sequence = Inr s \<and> messages s ! 0 = Some m \<and>
         addr m = decoded_addr (sequence ! 0) \<and> flags m = decoded_flags (sequence ! 0)"
    by blast
next
  assume h: "2 \<le> length sequence \<and> restarts_well_formed restart (tl sequence)"
  then have len: "2 \<le> length sequence" and wf: "restarts_well_formed restart (tl sequence)"
    by simp_all
  from len have tl: "tl sequence \<noteq> []" by (cases sequence; cases "tl sequence"; simp)
  from compile_sequence_fields [OF len, of restart] obtain s
    where s: "compile_sequence restart sequence = Inr s"
      and n: "length (messages s) = count_segments restart sequence"
         "current_message s = closes restart (tl sequence)"
      and f: "map fields_of (take (current_message s) (messages s)) =
        map Some (pending_fields restart (ucast (sequence ! 0)) (ucast (sequence ! 0) AND 1) (tl sequence))"
    by blast
  from n closes_well_formed [OF wf tl] have "current_message s = length (messages s)"
    by (simp add: count_segments_filter)
  with f have "map fields_of (messages s) =
        map Some (pending_fields restart (ucast (sequence ! 0)) (ucast (sequence ! 0) AND 1) (tl sequence))"
    by simp
  with pending_well_formed [OF wf tl, of "sequence ! 0"] s
  show "\<exists>s. compile_sequence restart sequence = Inr s \<and>
         map fields_of (messages s) =
           map (\<lambda>tok. Some (decoded_addr tok, decoded_flags tok))
             (sequence ! 0 # tokens_after_restart restart (tl sequence))"
    by (simp add: comp_def)
next
  assume "tok < 0x100"
  then show "decoded_addr tok = drop_bit 1 tok" by (rule decoded_addr_byte)
qed

theorem address_decoding_witness:
  "2 \<le> length [0x70, 0x8a, 0x100, 0x71, 0x200 :: token] \<and>
   restarts_well_formed 0x100 (tl [0x70, 0x8a, 0x100, 0x71, 0x200]) \<and>
   (0x70 :: token) < 0x100 \<and>
   (\<exists>s m. compile_sequence 0x100 [0x70, 0x8a, 0x100, 0x71, 0x200] = Inr s \<and>
      messages s ! 0 = Some m \<and> addr m = decoded_addr 0x70 \<and> flags m = decoded_flags 0x70) \<and>
   (\<exists>s. compile_sequence 0x100 [0x70, 0x8a, 0x100, 0x71, 0x200] = Inr s \<and>
      map fields_of (messages s) =
        [Some (decoded_addr 0x70, decoded_flags 0x70), Some (decoded_addr 0x71, decoded_flags 0x71)]) \<and>
   decoded_addr 0x70 = drop_bit 1 0x70"
  using address_decoding [of "[0x70, 0x8a, 0x100, 0x71, 0x200]" "0x100" "0x70"]
  by (simp (no_asm_use))

text \<open>
  C5 as the specification words it fails on \<open>[0x170, 0x80]\<close>, which passes both guards:
  the address field of the one message is \<open>0x38\<close>, token 0 shifted right by one is
  \<open>0xB8\<close>.
\<close>

theorem wide_address_token_is_narrowed:
  "compile_sequence 0x100 [0x170, 0x80] =
     Inr \<lparr>messages = [Some \<lparr>addr = 0x38, flags = 0, len = 1, buf = Msg_buf 0\<rparr>],
          current_message = 1,
          msg_buf = [Some 0x80, None],
          msg_cur_buf_ptr = 1, msg_cur_buf_base = 0, msg_cur_buf_size = 1,
          address = 0x70, rw = 0, received_data = 0\<rparr> \<and>
   drop_bit 1 (0x170 :: token) = 0xB8 \<and>
   (0x38 :: 16 word) \<noteq> drop_bit 1 (0x170 :: token)"
  by (simp add: run_defs)

subsection \<open>A restart before the last token\<close>


















subsection \<open>What makes a call fail, and what the tokens become\<close>

lemma closing_segment_message:
  "closing_message restart sequence i s =
     segment_message (address s) (rw s) (closing_size restart sequence i s)
       (msg_cur_buf_base s) (received_data s)"
  by (simp add: closing_message_def segment_message_def)

lemma msgs_inv_step:
  assumes inv: "msgs_inv restart sequence T i s" and lt: "i < length sequence"
    and body: "loop_body restart sequence i s = Inr (i', s')"
  shows "msgs_inv restart sequence T (Suc i') s'"
proof -
  note B = loop_body_Inr [OF body]
  let ?m = "closing_message restart sequence i s"
  have closed: "take (current_message s') (messages s') =
      take (current_message s) (messages s) @ [Some ?m]"
    if c: "sequence ! i = restart \<or> i = length sequence - 1"
  proof -
    from c have "current_message s < length (messages s)" by (rule B(11))
    with c show ?thesis by (simp add: B(2,3) take_Suc_update)
  qed
  have kept: "take (current_message s') (messages s') = take (current_message s) (messages s)"
    if "\<not> (sequence ! i = restart \<or> i = length sequence - 1)"
    using that by (simp add: B(2,3))
  consider (last) "i = length sequence - 1"
    | (second) "Suc i < length sequence" "\<not> i < length sequence - 2"
    | (inner) "i < length sequence - 2"
    using lt by linarith
  then show ?thesis
  proof cases
    case last
    with lt have d: "drop i sequence = [sequence ! i]" by (rule_tac drop_last_index)
    from last have c: "sequence ! i = restart \<or> i = length sequence - 1" by simp
    from last lt have nl: "\<not> i < length sequence - 2" by arith
    from last lt have e: "drop (Suc i) sequence = []" by simp
    from inv show ?thesis
      by (auto simp: msgs_inv_def closed [OF c] d e B(1) nl closing_segment_message
          closing_size_def)
  next
    case second
    then have d: "drop i sequence = [sequence ! i, sequence ! Suc i]" by (rule drop_second_last)
    from second have d': "drop (Suc i) sequence = [sequence ! Suc i]" by (simp add: drop_last_index)
    from second have nl: "i \<noteq> length sequence - 1" by arith
    show ?thesis
    proof (cases "sequence ! i = restart")
      case True
      then have c: "sequence ! i = restart \<or> i = length sequence - 1" by simp
      from inv True second(2) show ?thesis
        by (auto simp: msgs_inv_def closed [OF c] d d' B(1,5,6,7,8,9,10) closing_segment_message
            closing_size_def)
    next
      case False
      with nl have c: "\<not> (sequence ! i = restart \<or> i = length sequence - 1)" by simp
      from inv False nl show ?thesis
        by (auto simp: msgs_inv_def kept [OF c] d d' B(1,5,6,7,8,9,10) closing_size_def)
    qed
  next
    case inner
    then have d: "drop i sequence = sequence ! i # sequence ! Suc i # sequence ! Suc (Suc i) # drop (Suc (Suc (Suc i))) sequence"
      by (rule drop_three)
    then have d': "drop (Suc i) sequence = sequence ! Suc i # sequence ! Suc (Suc i) # drop (Suc (Suc (Suc i))) sequence"
      and d'': "drop (Suc (Suc i)) sequence = sequence ! Suc (Suc i) # drop (Suc (Suc (Suc i))) sequence"
      by (metis drop_Suc list.sel(3) tl_drop)+
    from inner have nl: "i \<noteq> length sequence - 1" by arith
    show ?thesis
    proof (cases "sequence ! i = restart")
      case True
      then have c: "sequence ! i = restart \<or> i = length sequence - 1" by simp
      from inv True inner show ?thesis
        by (auto simp: msgs_inv_def closed [OF c] d d'' B(1,5,6,7,8,9,10) closing_segment_message
            closing_size_def)
    next
      case False
      with nl have c: "\<not> (sequence ! i = restart \<or> i = length sequence - 1)" by simp
      from inv False nl show ?thesis
        by (auto simp: msgs_inv_def kept [OF c] d d' B(1,5,6,7,8,9,10) closing_size_def)
    qed
  qed
qed

lemma bytes_inv_step:
  assumes inv: "bytes_inv restart sequence T i s" and lt: "i < length sequence"
    and body: "loop_body restart sequence i s = Inr (i', s')"
  shows "bytes_inv restart sequence T (Suc i') s'"
proof -
  note B = loop_body_Inr [OF body]
  from inv have I: "take (msg_cur_buf_ptr s) (msg_buf s) @
       map Some (pending_bytes restart (rw s) (drop i sequence)) = T"
    "drop (msg_cur_buf_ptr s) (msg_buf s) = replicate (length (msg_buf s) - msg_cur_buf_ptr s) None"
    by (simp_all add: bytes_inv_def)
  have staged: "take (msg_cur_buf_ptr s') (msg_buf s') =
      take (msg_cur_buf_ptr s) (msg_buf s) @ [Some (ucast (sequence ! i))] \<and>
      drop (msg_cur_buf_ptr s') (msg_buf s') =
        replicate (length (msg_buf s') - msg_cur_buf_ptr s') None"
    if w: "sequence ! i \<noteq> restart \<and> rw s = WRITING"
  proof -
    from w have p: "msg_cur_buf_ptr s < length (msg_buf s)" by (rule B(12))
    have "drop (Suc (msg_cur_buf_ptr s)) (msg_buf s) = tl (drop (msg_cur_buf_ptr s) (msg_buf s))"
      by (simp add: drop_Suc tl_drop)
    also have "\<dots> = replicate (length (msg_buf s) - Suc (msg_cur_buf_ptr s)) None"
      by (simp only: I(2)) simp
    finally show ?thesis using w p by (simp add: B(4,5) take_Suc_update)
  qed
  have unstaged: "take (msg_cur_buf_ptr s') (msg_buf s') = take (msg_cur_buf_ptr s) (msg_buf s) \<and>
      drop (msg_cur_buf_ptr s') (msg_buf s') =
        replicate (length (msg_buf s') - msg_cur_buf_ptr s') None"
    if "\<not> (sequence ! i \<noteq> restart \<and> rw s = WRITING)"
  proof -
    have "msg_buf s' = msg_buf s" "msg_cur_buf_ptr s' = msg_cur_buf_ptr s"
      by (simp_all only: B(4,5) that if_False)
    with I(2) show ?thesis by simp
  qed
  consider (last) "i = length sequence - 1"
    | (second) "Suc i < length sequence" "\<not> i < length sequence - 2"
    | (inner) "i < length sequence - 2"
    using lt by linarith
  then show ?thesis
  proof cases
    case last
    with lt have d: "drop i sequence = [sequence ! i]" by (rule_tac drop_last_index)
    from last lt have nl: "\<not> i < length sequence - 2" by arith
    from last lt have e: "drop (Suc i) sequence = []" by simp
    show ?thesis
    proof (cases "sequence ! i \<noteq> restart \<and> rw s = WRITING")
      case True
      with I(1) staged [OF True] show ?thesis
        by (simp add: bytes_inv_def d e B(1) nl)
    next
      case False
      with I(1) unstaged [OF False] show ?thesis
        by (auto simp: bytes_inv_def d e B(1) nl)
    qed
  next
    case second
    then have d: "drop i sequence = [sequence ! i, sequence ! Suc i]" by (rule drop_second_last)
    from second have d': "drop (Suc i) sequence = [sequence ! Suc i]" by (simp add: drop_last_index)
    show ?thesis
    proof (cases "sequence ! i \<noteq> restart \<and> rw s = WRITING")
      case True
      with I(1) staged [OF True] second(2) show ?thesis
        by (simp add: bytes_inv_def d d' B(1,9))
    next
      case False
      with I(1) unstaged [OF False] second(2) show ?thesis
        by (auto simp: bytes_inv_def d d' B(1,9))
    qed
  next
    case inner
    then have d: "drop i sequence = sequence ! i # sequence ! Suc i # sequence ! Suc (Suc i) # drop (Suc (Suc (Suc i))) sequence"
      by (rule drop_three)
    then have d': "drop (Suc i) sequence = sequence ! Suc i # sequence ! Suc (Suc i) # drop (Suc (Suc (Suc i))) sequence"
      and d'': "drop (Suc (Suc i)) sequence = sequence ! Suc (Suc i) # drop (Suc (Suc (Suc i))) sequence"
      by (metis drop_Suc list.sel(3) tl_drop)+
    from inner have nl: "i \<noteq> length sequence - 1" by arith
    show ?thesis
    proof (cases "sequence ! i = restart")
      case True
      then have nw: "\<not> (sequence ! i \<noteq> restart \<and> rw s = WRITING)" by simp
      from I(1) unstaged [OF nw] True inner show ?thesis
        by (simp add: bytes_inv_def d d'' B(1,9))
    next
      case False
      show ?thesis
      proof (cases "rw s = WRITING")
        case True
        with False have w: "sequence ! i \<noteq> restart \<and> rw s = WRITING" by simp
        from I(1) staged [OF w] False True nl show ?thesis
          by (simp add: bytes_inv_def d d' B(1,9))
      next
        case nwr: False
        then have nw: "\<not> (sequence ! i \<noteq> restart \<and> rw s = WRITING)" by simp
        from I(1) unstaged [OF nw] False nwr nl show ?thesis
          by (simp add: bytes_inv_def d d' B(1,9))
      qed
    qed
  qed
qed

lemma pending_msgs_data:
  assumes "x \<noteq> r" and "rest \<noteq> []"
  shows "pending_msgs r a w c b p off (x # rest) =
    pending_msgs r a w (c + 1) b (if w = WRITING then p + 1 else p) off rest"
proof -
  from assms(2) obtain y rest' where "rest = y # rest'" by (cases rest) auto
  with assms(1) show ?thesis by (cases rest') simp_all
qed

lemma pending_msgs_run:
  "r \<notin> set ds \<Longrightarrow> tail \<noteq> [] \<Longrightarrow>
   pending_msgs r a w c b p off (ds @ tail) =
     pending_msgs r a w (c + length ds) b (if w = WRITING then p + length ds else p) off tail"
proof (induction ds arbitrary: c p)
  case Nil
  then show ?case by simp
next
  case (Cons x ds)
  from Cons.prems have x: "x \<noteq> r" and ds: "r \<notin> set ds" and ne: "ds @ tail \<noteq> []" by auto
  have "pending_msgs r a w c b p off ((x # ds) @ tail) =
      pending_msgs r a w (c + 1) b (if w = WRITING then p + 1 else p) off (ds @ tail)"
    using pending_msgs_data [OF x ne] by simp
  also have "\<dots> = pending_msgs r a w (c + 1 + length ds) b
      (if w = WRITING then (if w = WRITING then p + 1 else p) + length ds
       else (if w = WRITING then p + 1 else p)) off tail"
    by (rule Cons.IH [OF ds Cons.prems(2)])
  finally show ?case by simp
qed

lemma pending_msgs_last:
  "r \<notin> set ds \<Longrightarrow> ds \<noteq> [] \<Longrightarrow>
   pending_msgs r a w c b p off ds = [segment_message a w (c + length ds) b off]"
proof (induction ds arbitrary: c p)
  case Nil
  then show ?case by simp
next
  case (Cons x ds)
  from Cons.prems have x: "x \<noteq> r" and ds: "r \<notin> set ds" by auto
  show ?case
  proof (cases "ds = []")
    case True
    with x show ?thesis by simp
  next
    case False
    from pending_msgs_data [OF x False] Cons.IH [OF ds False] show ?thesis by simp
  qed
qed

lemma pending_msgs_restart:
  "rest \<noteq> [] \<Longrightarrow>
   pending_msgs r a w c b p off (r # y # rest) =
     segment_message a w c b off #
     pending_msgs r (ucast y) (ucast y AND 1) 0 p p (if w = READING then off + c else off) rest"
  by (cases rest) simp_all

lemma segment_message_decoded:
  "segment_message (ucast a) (ucast a AND 1) n b off =
     \<lparr>addr = decoded_addr a, flags = decoded_flags a, len = of_nat n,
      buf = (if bit a 0 then Received off else Msg_buf b)\<rparr>"
  by (simp add: segment_message_def decoded_addr_def decoded_flags_def ucast_bit0)

lemma well_formed_segments_tl:
  "well_formed_segments r (seg # seg' # segs) \<Longrightarrow> well_formed_segments r (seg' # segs)"
  by (auto simp: well_formed_segments_def)

lemma sequence_of_tl_nonempty:
  "well_formed_segments r ((a, ds) # segs) \<Longrightarrow>
   sequence_of r ((a, ds) # segs) = a # tl (sequence_of r ((a, ds) # segs)) \<and>
   tl (sequence_of r ((a, ds) # segs)) \<noteq> []"
  by (cases segs) (auto simp: well_formed_segments_def)

lemma pending_msgs_segments:
  "well_formed_segments r ((a, ds) # segs) \<Longrightarrow>
   pending_msgs r (ucast a) (ucast a AND 1) 0 b b off (tl (sequence_of r ((a, ds) # segs))) =
     segment_messages b off ((a, ds) # segs)"
proof (induction segs arbitrary: a ds b off)
  case Nil
  then have "r \<notin> set ds" "ds \<noteq> []" by (auto simp: well_formed_segments_def)
  then show ?case
    by (simp add: pending_msgs_last segment_message_decoded)
next
  case (Cons seg segs)
  obtain a' ds' where seg: "seg = (a', ds')" by (cases seg)
  let ?w = "ucast a AND (1 :: 8 word)"
  let ?rest = "tl (sequence_of r ((a', ds') # segs))"
  from Cons.prems have ds: "r \<notin> set ds" by (auto simp: well_formed_segments_def)
  from Cons.prems have wf: "well_formed_segments r ((a', ds') # segs)"
    unfolding seg by (rule well_formed_segments_tl)
  from sequence_of_tl_nonempty [OF wf]
  have sq: "sequence_of r ((a', ds') # segs) = a' # ?rest" and ne: "?rest \<noteq> []" by simp_all
  have w: "?w = WRITING \<longleftrightarrow> \<not> bit a 0" "?w = READING \<longleftrightarrow> bit a 0"
    by (simp_all add: ucast_bit0 WRITING_def READING_def)
  have "pending_msgs r (ucast a) ?w 0 b b off (tl (sequence_of r ((a, ds) # seg # segs))) =
      pending_msgs r (ucast a) ?w 0 b b off (ds @ r # a' # ?rest)"
    using sq by (simp add: seg)
  also have "\<dots> = pending_msgs r (ucast a) ?w (0 + length ds) b
      (if ?w = WRITING then b + length ds else b) off (r # a' # ?rest)"
    by (rule pending_msgs_run [OF ds]) simp
  also have "\<dots> = segment_message (ucast a) ?w (0 + length ds) b off #
      pending_msgs r (ucast a') (ucast a' AND 1) 0
        (if ?w = WRITING then b + length ds else b) (if ?w = WRITING then b + length ds else b)
        (if ?w = READING then off + (0 + length ds) else off) ?rest"
    by (rule pending_msgs_restart [OF ne])
  also have "\<dots> = segment_message (ucast a) ?w (0 + length ds) b off #
      segment_messages (if ?w = WRITING then b + length ds else b)
        (if ?w = READING then off + (0 + length ds) else off) ((a', ds') # segs)"
    by (simp only: Cons.IH [OF wf])
  also have "\<dots> = segment_messages b off ((a, ds) # seg # segs)"
    by (simp add: seg segment_message_decoded w)
  finally show ?case .
qed

lemma pending_bytes_data:
  assumes "x \<noteq> r"
  shows "pending_bytes r w (x # rest) =
    (if w = WRITING then [ucast x] else []) @ pending_bytes r w rest"
proof (cases rest)
  case Nil
  with assms show ?thesis by simp
next
  case (Cons y rest')
  with assms show ?thesis by (cases rest') simp_all
qed

lemma pending_bytes_run:
  "r \<notin> set ds \<Longrightarrow>
   pending_bytes r w (ds @ tail) =
     (if w = WRITING then map ucast ds else []) @ pending_bytes r w tail"
proof (induction ds)
  case Nil
  then show ?case by simp
next
  case (Cons x ds)
  from Cons.prems have x: "x \<noteq> r" and ds: "r \<notin> set ds" by auto
  from pending_bytes_data [OF x, of w "ds @ tail"] Cons.IH [OF ds] show ?case by simp
qed

lemma pending_bytes_restart:
  "rest \<noteq> [] \<Longrightarrow> pending_bytes r w (r # y # rest) = pending_bytes r (ucast y AND 1) rest"
  by (cases rest) simp_all

lemma pending_bytes_segments:
  "well_formed_segments r ((a, ds) # segs) \<Longrightarrow>
   pending_bytes r (ucast a AND 1) (tl (sequence_of r ((a, ds) # segs))) =
     staged_bytes ((a, ds) # segs)"
proof (induction segs arbitrary: a ds)
  case Nil
  then have "r \<notin> set ds" by (auto simp: well_formed_segments_def)
  from pending_bytes_run [OF this, of _ "[]"] show ?case
    by (simp add: staged_bytes_def ucast_bit0 WRITING_def)
next
  case (Cons seg segs)
  obtain a' ds' where seg: "seg = (a', ds')" by (cases seg)
  let ?w = "ucast a AND (1 :: 8 word)"
  let ?rest = "tl (sequence_of r ((a', ds') # segs))"
  from Cons.prems have ds: "r \<notin> set ds" by (auto simp: well_formed_segments_def)
  from Cons.prems have wf: "well_formed_segments r ((a', ds') # segs)"
    unfolding seg by (rule well_formed_segments_tl)
  from sequence_of_tl_nonempty [OF wf]
  have sq: "sequence_of r ((a', ds') # segs) = a' # ?rest" and ne: "?rest \<noteq> []" by simp_all
  have "pending_bytes r ?w (tl (sequence_of r ((a, ds) # seg # segs))) =
      pending_bytes r ?w (ds @ r # a' # ?rest)"
    using sq by (simp add: seg)
  also have "\<dots> = (if ?w = WRITING then map ucast ds else []) @
      pending_bytes r ?w (r # a' # ?rest)"
    by (rule pending_bytes_run [OF ds])
  also have "\<dots> = (if ?w = WRITING then map ucast ds else []) @
      pending_bytes r (ucast a' AND 1) ?rest"
    by (simp only: pending_bytes_restart [OF ne])
  also have "\<dots> = (if ?w = WRITING then map ucast ds else []) @ staged_bytes ((a', ds') # segs)"
    by (simp only: Cons.IH [OF wf])
  also have "\<dots> = staged_bytes ((a, ds) # seg # segs)"
    by (simp add: seg staged_bytes_def ucast_bit0 WRITING_def)
  finally show ?case .
qed

lemma no_restart_filter: "r \<notin> set ds \<Longrightarrow> filter (\<lambda>t. t = r) ds = []"
  by (induction ds) auto

lemma restarts_segments:
  "well_formed_segments r ((a, ds) # segs) \<Longrightarrow>
   restarts r (tl (sequence_of r ((a, ds) # segs))) = length segs"
proof (induction segs arbitrary: a ds)
  case Nil
  then have "r \<notin> set ds" by (auto simp: well_formed_segments_def)
  then show ?case by (simp add: no_restart_filter)
next
  case (Cons seg segs)
  obtain a' ds' where seg: "seg = (a', ds')" by (cases seg)
  let ?rest = "tl (sequence_of r ((a', ds') # segs))"
  from Cons.prems have ds: "r \<notin> set ds" and a': "a' \<noteq> r"
    by (auto simp: well_formed_segments_def seg)
  from Cons.prems have wf: "well_formed_segments r ((a', ds') # segs)"
    unfolding seg by (rule well_formed_segments_tl)
  from sequence_of_tl_nonempty [OF wf]
  have sq: "sequence_of r ((a', ds') # segs) = a' # ?rest" by simp
  from ds have f: "filter (\<lambda>t. t = r) ds = []" by (rule no_restart_filter)
  have "tl (sequence_of r ((a, ds) # seg # segs)) = ds @ r # a' # ?rest"
    using sq by (simp add: seg)
  then have "restarts r (tl (sequence_of r ((a, ds) # seg # segs))) = 1 + restarts r ?rest"
    using a' f by simp
  with Cons.IH [OF wf] show ?case by simp
qed

lemma compile_sequence_staging:
  assumes len: "2 \<le> length sequence"
  shows "\<exists>s. compile_sequence restart sequence = Inr s \<and>
    length (messages s) = count_segments restart sequence \<and>
    take (current_message s) (messages s) =
      map Some (pending_msgs restart (ucast (sequence ! 0)) (ucast (sequence ! 0) AND 1) 0 0 0 0
        (tl sequence)) \<and>
    msg_buf s =
      map Some (pending_bytes restart (ucast (sequence ! 0) AND 1) (tl sequence)) @
      replicate (length sequence -
        length (pending_bytes restart (ucast (sequence ! 0) AND 1) (tl sequence))) None"
proof -
  let ?T = "map Some (pending_msgs restart (ucast (sequence ! 0)) (ucast (sequence ! 0) AND 1)
    0 0 0 0 (tl sequence))"
  let ?B = "map Some (pending_bytes restart (ucast (sequence ! 0) AND 1) (tl sequence))"
  let ?Q = "\<lambda>i s. msgs_inv restart sequence ?T i s \<and> bytes_inv restart sequence ?B i s"
  have "\<exists>s. compile_sequence restart sequence = Inr s \<and>
    length (msg_buf s) = length sequence \<and> msg_cur_buf_ptr s < length sequence \<and>
    length (messages s) = count_segments restart sequence \<and>
    current_message s = closes restart (tl sequence) \<and> ?Q (length sequence) s"
  proof (rule compile_sequence_invariant [where Q = ?Q, OF len])
    show "?Q 1 (init_state sequence (count_segments restart sequence))"
      by (simp add: msgs_inv_def bytes_inv_def init_state_def drop_Suc)
  next
    fix i s i' s'
    assume "?Q i s" and lt: "i < length sequence"
      and body: "loop_body restart sequence i s = Inr (i', s')"
    then show "?Q (Suc i') s'"
      using msgs_inv_step [OF _ lt body] bytes_inv_step [OF _ lt body] by blast
  qed
  then obtain s where s: "compile_sequence restart sequence = Inr s"
    and n: "length (msg_buf s) = length sequence" and p: "msg_cur_buf_ptr s < length sequence"
    and m: "length (messages s) = count_segments restart sequence"
    and mi: "msgs_inv restart sequence ?T (length sequence) s"
    and bi: "bytes_inv restart sequence ?B (length sequence) s"
    by blast
  from mi have T: "take (current_message s) (messages s) = ?T" by (simp add: msgs_inv_def)
  from bi have B: "take (msg_cur_buf_ptr s) (msg_buf s) = ?B"
    and R: "drop (msg_cur_buf_ptr s) (msg_buf s) =
      replicate (length (msg_buf s) - msg_cur_buf_ptr s) None"
    by (simp_all add: bytes_inv_def)
  from B n p have lb: "length ?B = msg_cur_buf_ptr s"
    by (metis length_take min.absorb2 less_imp_le)
  have "msg_buf s = take (msg_cur_buf_ptr s) (msg_buf s) @ drop (msg_cur_buf_ptr s) (msg_buf s)"
    by simp
  also have "\<dots> = ?B @ replicate (length sequence - length ?B) None"
    by (simp only: B R n lb)
  finally have "msg_buf s = ?B @ replicate (length sequence - length ?B) None" .
  with s m T show ?thesis by simp
qed

lemma compile_segments:
  assumes wf: "well_formed_segments restart segs"
  shows "2 \<le> length (sequence_of restart segs) \<and>
    count_segments restart (sequence_of restart segs) = length segs \<and>
    (\<exists>s. compile_sequence restart (sequence_of restart segs) = Inr s \<and>
       messages s = map Some (segment_messages 0 0 segs) \<and>
       msg_buf s = map Some (staged_bytes segs) @
         replicate (length (sequence_of restart segs) - length (staged_bytes segs)) None)"
proof -
  from wf obtain a ds rest where segs: "segs = (a, ds) # rest"
    by (cases segs) (auto simp: well_formed_segments_def)
  let ?seq = "sequence_of restart segs"
  from wf have wf': "well_formed_segments restart ((a, ds) # rest)" by (simp add: segs)
  from sequence_of_tl_nonempty [OF wf']
  have sq: "?seq = a # tl ?seq" and ne: "tl ?seq \<noteq> []" by (simp_all add: segs)
  from sq have hd: "?seq ! 0 = a" by (metis nth_Cons_0)
  have "length ?seq = Suc (length (tl ?seq))" by (metis sq length_Cons)
  moreover from ne have "1 \<le> length (tl ?seq)" by (cases "tl ?seq") simp_all
  ultimately have len: "2 \<le> length ?seq" by simp
  have cnt: "count_segments restart ?seq = length segs"
    using restarts_segments [OF wf'] by (simp add: count_segments_filter segs)
  from compile_sequence_staging [OF len, of restart] obtain s
    where s: "compile_sequence restart ?seq = Inr s"
      and m: "length (messages s) = count_segments restart ?seq"
      and T: "take (current_message s) (messages s) =
        map Some (pending_msgs restart (ucast (?seq ! 0)) (ucast (?seq ! 0) AND 1) 0 0 0 0 (tl ?seq))"
      and B: "msg_buf s =
        map Some (pending_bytes restart (ucast (?seq ! 0) AND 1) (tl ?seq)) @
        replicate (length ?seq - length (pending_bytes restart (ucast (?seq ! 0) AND 1) (tl ?seq))) None"
    by blast
  have pm: "pending_msgs restart (ucast a) (ucast a AND 1) 0 0 0 0 (tl ?seq) = segment_messages 0 0 segs"
    using pending_msgs_segments [OF wf', of 0 0] by (simp add: segs)
  have pb: "pending_bytes restart (ucast a AND 1) (tl ?seq) = staged_bytes segs"
    using pending_bytes_segments [OF wf'] by (simp add: segs)
  have ls: "length (segment_messages b off sg) = length sg" for b off and sg :: "(token \<times> token list) list"
    by (induction sg arbitrary: b off) auto
  from T have T': "take (current_message s) (messages s) = map Some (segment_messages 0 0 segs)"
    by (simp only: hd pm)
  then have "length (take (current_message s) (messages s)) = length segs"
    by (simp add: ls)
  with m cnt have "take (current_message s) (messages s) = messages s" by simp
  with T' have "messages s = map Some (segment_messages 0 0 segs)" by simp
  moreover from B have "msg_buf s = map Some (staged_bytes segs) @
      replicate (length ?seq - length (staged_bytes segs)) None"
    by (simp only: hd pb)
  ultimately show ?thesis using len cnt s by blast
qed

text \<open>
  C10. The call makes no transport call if and only if the sequence is shorter than two
  tokens or \<^verbatim>\<open>count_segments\<close> exceeds the limit, and then it returns -1. In every
  other case the pass ends without a fault, the transport is called once with the
  message array, the counted number of segments and \<^verbatim>\<open>msg_buf\<close>, and its value is
  returned. The values of the tokens play no part beyond the comparison with the
  restart. Let \<open>segs\<close> be any well-formed list of segments: the data tokens are arbitrary
  16-bit values other than the restart. Its sequence has as many segments as the list,
  and the pass fills exactly the messages \<open>segment_messages 0 0 segs\<close>: each write
  message has the number of its tokens as length and points behind the bytes of the
  writes before it, each read message has the number of its tokens as length and points
  behind the bytes of the reads before it. \<^verbatim>\<open>msg_buf\<close> holds the low bytes of the tokens
  of all write segments, in order, and nothing else. If the list has at most 42
  segments, this is what the call hands to the transport.
\<close>

theorem token_values_never_validated:
  "(submissions (i2c_send_sequence restart ioctl handle sequence) = [] \<longleftrightarrow>
      length sequence < 2 \<or> I2C_RDRW_IOCTL_MAX_MSGS < count_segments restart sequence) \<and>
   (length sequence < 2 \<or> I2C_RDRW_IOCTL_MAX_MSGS < count_segments restart sequence \<longrightarrow>
      (\<exists>t. i2c_send_sequence restart ioctl handle sequence = Inr \<lparr>result = - 1, trace = t\<rparr>)) \<and>
   (2 \<le> length sequence \<and> count_segments restart sequence \<le> I2C_RDRW_IOCTL_MAX_MSGS \<longrightarrow>
      (\<exists>s. compile_sequence restart sequence = Inr s \<and>
         i2c_send_sequence restart ioctl handle sequence =
           Inr \<lparr>result = ioctl handle \<lparr>msgs = messages s,
                                        nmsgs = count_segments restart sequence,
                                        staged = msg_buf s\<rparr>,
                trace = [Malloc_messages (count_segments restart sequence),
                         Malloc_msg_buf (length sequence),
                         Ioctl handle \<lparr>msgs = messages s,
                                       nmsgs = count_segments restart sequence,
                                       staged = msg_buf s\<rparr>,
                         Free_msg_buf, Free_messages]\<rparr>)) \<and>
   (well_formed_segments restart segs \<longrightarrow>
      2 \<le> length (sequence_of restart segs) \<and>
      count_segments restart (sequence_of restart segs) = length segs \<and>
      (\<exists>s. compile_sequence restart (sequence_of restart segs) = Inr s \<and>
         messages s = map Some (segment_messages 0 0 segs) \<and>
         msg_buf s = map Some (staged_bytes segs) @
           replicate (length (sequence_of restart segs) - length (staged_bytes segs)) None)) \<and>
   (well_formed_segments restart segs \<and> length segs \<le> I2C_RDRW_IOCTL_MAX_MSGS \<longrightarrow>
      submissions (i2c_send_sequence restart ioctl handle (sequence_of restart segs)) =
        [Ioctl handle
           \<lparr>msgs = map Some (segment_messages 0 0 segs),
            nmsgs = length segs,
            staged = map Some (staged_bytes segs) @
              replicate (length (sequence_of restart segs) - length (staged_bytes segs)) None\<rparr>])"
proof (intro conjI impI)
  show "submissions (i2c_send_sequence restart ioctl handle sequence) = [] \<longleftrightarrow>
      length sequence < 2 \<or> I2C_RDRW_IOCTL_MAX_MSGS < count_segments restart sequence"
  proof (cases "2 \<le> length sequence \<and> count_segments restart sequence \<le> I2C_RDRW_IOCTL_MAX_MSGS")
    case True
    with i2c_send_sequence_accepted [of sequence restart ioctl handle] show ?thesis
      by (auto simp: submissions_def)
  next
    case False
    then show ?thesis
      by (auto simp: i2c_send_sequence_def Let_def submissions_def)
  qed
next
  assume "length sequence < 2 \<or> I2C_RDRW_IOCTL_MAX_MSGS < count_segments restart sequence"
  then show "\<exists>t. i2c_send_sequence restart ioctl handle sequence = Inr \<lparr>result = - 1, trace = t\<rparr>"
    by (auto simp: i2c_send_sequence_def Let_def)
next
  assume "2 \<le> length sequence \<and> count_segments restart sequence \<le> I2C_RDRW_IOCTL_MAX_MSGS"
  then show "\<exists>s. compile_sequence restart sequence = Inr s \<and>
         i2c_send_sequence restart ioctl handle sequence =
           Inr \<lparr>result = ioctl handle \<lparr>msgs = messages s,
                                        nmsgs = count_segments restart sequence,
                                        staged = msg_buf s\<rparr>,
                trace = [Malloc_messages (count_segments restart sequence),
                         Malloc_msg_buf (length sequence),
                         Ioctl handle \<lparr>msgs = messages s,
                                       nmsgs = count_segments restart sequence,
                                       staged = msg_buf s\<rparr>,
                         Free_msg_buf, Free_messages]\<rparr>"
    using i2c_send_sequence_accepted [of sequence restart ioctl handle] by simp
next
  assume wf: "well_formed_segments restart segs"
  from compile_segments [OF wf]
  show "2 \<le> length (sequence_of restart segs)"
    and "count_segments restart (sequence_of restart segs) = length segs"
    and "\<exists>s. compile_sequence restart (sequence_of restart segs) = Inr s \<and>
         messages s = map Some (segment_messages 0 0 segs) \<and>
         msg_buf s = map Some (staged_bytes segs) @
           replicate (length (sequence_of restart segs) - length (staged_bytes segs)) None"
    by simp_all
next
  assume h: "well_formed_segments restart segs \<and> length segs \<le> I2C_RDRW_IOCTL_MAX_MSGS"
  then have wf: "well_formed_segments restart segs" by simp
  from compile_segments [OF wf] obtain s
    where len: "2 \<le> length (sequence_of restart segs)"
      and cnt: "count_segments restart (sequence_of restart segs) = length segs"
      and s: "compile_sequence restart (sequence_of restart segs) = Inr s"
      and m: "messages s = map Some (segment_messages 0 0 segs)"
      and b: "msg_buf s = map Some (staged_bytes segs) @
           replicate (length (sequence_of restart segs) - length (staged_bytes segs)) None"
    by blast
  from h cnt have "count_segments restart (sequence_of restart segs) \<le> I2C_RDRW_IOCTL_MAX_MSGS"
    by simp
  from i2c_send_sequence_accepted [OF len this, of ioctl handle] s
  have "i2c_send_sequence restart ioctl handle (sequence_of restart segs) =
      Inr \<lparr>result = ioctl handle \<lparr>msgs = messages s,
                                   nmsgs = count_segments restart (sequence_of restart segs),
                                   staged = msg_buf s\<rparr>,
           trace = [Malloc_messages (count_segments restart (sequence_of restart segs)),
                    Malloc_msg_buf (length (sequence_of restart segs)),
                    Ioctl handle \<lparr>msgs = messages s,
                                  nmsgs = count_segments restart (sequence_of restart segs),
                                  staged = msg_buf s\<rparr>,
                    Free_msg_buf, Free_messages]\<rparr>"
    by simp
  then show "submissions (i2c_send_sequence restart ioctl handle (sequence_of restart segs)) =
        [Ioctl handle
           \<lparr>msgs = map Some (segment_messages 0 0 segs),
            nmsgs = length segs,
            staged = map Some (staged_bytes segs) @
              replicate (length (sequence_of restart segs) - length (staged_bytes segs)) None\<rparr>]"
    by (simp add: submissions_def cnt m b)
qed

theorem token_values_never_validated_witness:
  "submissions (i2c_send_sequence 0x100 transport_ok 3 [0x70]) = [] \<and>
   (\<exists>t. i2c_send_sequence 0x100 transport_ok 3 [0x70] = Inr \<lparr>result = - 1, trace = t\<rparr>) \<and>
   submissions (i2c_send_sequence 0x100 transport_ok 3 [0x70, 0x8a, 0x100, 0x71, 0x200]) \<noteq> [] \<and>
   (\<exists>s. compile_sequence 0x100 [0x70, 0x8a, 0x100, 0x71, 0x200] = Inr s \<and>
      i2c_send_sequence 0x100 transport_ok 3 [0x70, 0x8a, 0x100, 0x71, 0x200] =
        Inr \<lparr>result = 0,
             trace = [Malloc_messages (Suc (Suc 0)),
                      Malloc_msg_buf (length [0x70, 0x8a, 0x100, 0x71, 0x200 :: token]),
                      Ioctl 3 \<lparr>msgs = messages s, nmsgs = Suc (Suc 0), staged = msg_buf s\<rparr>,
                      Free_msg_buf, Free_messages]\<rparr>) \<and>
   well_formed_segments 0x100 [(0x70, [0x200, 0x17f]), (0x71, [0x05, 0x200])] \<and>
   length [(0x70, [0x200, 0x17f]), (0x71, [0x05, 0x200 :: token]) :: token \<times> token list]
     \<le> I2C_RDRW_IOCTL_MAX_MSGS \<and>
   (\<exists>s. compile_sequence 0x100 [0x70, 0x200, 0x17f, 0x100, 0x71, 0x05, 0x200] = Inr s \<and>
      messages s =
        [Some \<lparr>addr = 0x38, flags = 0, len = 2, buf = Msg_buf 0\<rparr>,
         Some \<lparr>addr = 0x38, flags = I2C_M_RD, len = 2, buf = Received 0\<rparr>] \<and>
      msg_buf s = [Some 0x00, Some 0x7f, None, None, None, None, None]) \<and>
   submissions (i2c_send_sequence 0x100 transport_ok 3
       [0x70, 0x200, 0x17f, 0x100, 0x71, 0x05, 0x200]) =
     [Ioctl 3
        \<lparr>msgs = [Some \<lparr>addr = 0x38, flags = 0, len = 2, buf = Msg_buf 0\<rparr>,
                 Some \<lparr>addr = 0x38, flags = I2C_M_RD, len = 2, buf = Received 0\<rparr>],
         nmsgs = Suc (Suc 0),
         staged = [Some 0x00, Some 0x7f, None, None, None, None, None]\<rparr>]"
proof -
  have b: "(512 :: 8 word) = 0" "(383 :: 8 word) = 127" by simp_all
  show ?thesis
    using
      token_values_never_validated
        [where restart = "0x100" and ioctl = transport_ok and handle = 3 and sequence = "[0x70]"
          and segs = "[(0x70, [0x200, 0x17f]), (0x71, [0x05, 0x200])]"]
      token_values_never_validated
        [where restart = "0x100" and ioctl = transport_ok and handle = 3
          and sequence = "[0x70, 0x8a, 0x100, 0x71, 0x200]"
          and segs = "[(0x70, [0x200, 0x17f]), (0x71, [0x05, 0x200])]"]
    by (simp add: b count_segments_filter I2C_RDRW_IOCTL_MAX_MSGS_def transport_ok_def
        well_formed_segments_def staged_bytes_def decoded_addr_def decoded_flags_def)
qed

end
